theory Spec2Isabelle
  imports Main "HOL-Library.Sublist"
begin

section \<open>Strings\<close>

text \<open>
  A JavaScript string is a sequence of UTF-16 code units.  The model is \<^typ>\<open>string\<close>,
  a list of \<^typ>\<open>char\<close>: the code units with a value below 256, that is the characters of
  ASCII and Latin-1.  Every function of this section does on them what the JavaScript
  function of the same name does.
\<close>

definition charCode :: "char \<Rightarrow> nat" where
  "charCode c = of_char c"

definition in_range :: "char \<Rightarrow> char \<Rightarrow> char \<Rightarrow> bool" where
  "in_range lo hi c = (charCode lo \<le> charCode c \<and> charCode c \<le> charCode hi)"

definition isWordChar :: "char \<Rightarrow> bool" where
  \<comment> \<open>the word characters of \<open>\<bsol>b\<close>: letters, digits and the underscore\<close>
  "isWordChar c =
     (in_range CHR ''a'' CHR ''z'' c \<or> in_range CHR ''A'' CHR ''Z'' c
      \<or> in_range CHR ''0'' CHR ''9'' c \<or> c = CHR ''_'')"

definition isSpace :: "char \<Rightarrow> bool" where
  \<comment> \<open>white space and line terminators, as \<open>\<bsol>s\<close> and \<open>trim\<close> see them: TAB, LF, VT, FF,
      CR, SPACE and NO-BREAK SPACE\<close>
  "isSpace c = (charCode c \<in> {9, 10, 11, 12, 13, 32, 160})"

definition lowerChar :: "char \<Rightarrow> char" where
  \<comment> \<open>\<open>A\<close> to \<open>Z\<close> and the capital letters of Latin-1 (0xC0 to 0xDE, the multiplication
      sign 0xD7 apart) move up by 32\<close>
  "lowerChar c =
     (if in_range CHR ''A'' CHR ''Z'' c \<or> (192 \<le> charCode c \<and> charCode c \<le> 222 \<and> charCode c \<noteq> 215)
      then char_of (charCode c + 32) else c)"

definition upperAscii :: "char \<Rightarrow> char" where
  "upperAscii c = (if in_range CHR ''a'' CHR ''z'' c then char_of (charCode c - 32) else c)"

definition lowerAscii :: "char \<Rightarrow> char" where
  "lowerAscii c = (if in_range CHR ''A'' CHR ''Z'' c then char_of (charCode c + 32) else c)"

definition toLowerCase :: "string \<Rightarrow> string" where
  "toLowerCase s = map lowerChar s"

definition trim :: "string \<Rightarrow> string" where
  "trim s = rev (dropWhile isSpace (rev (dropWhile isSpace s)))"

fun startsWith :: "string \<Rightarrow> string \<Rightarrow> bool" where
  "startsWith s [] = True"
| "startsWith [] (k # ks) = False"
| "startsWith (c # cs) (k # ks) = (c = k \<and> startsWith cs ks)"

fun includes_str :: "string \<Rightarrow> string \<Rightarrow> bool" where
  "includes_str [] k = (k = [])"
| "includes_str (c # cs) k = (startsWith (c # cs) k \<or> includes_str cs k)"

definition substring :: "string \<Rightarrow> nat \<Rightarrow> nat \<Rightarrow> string" where
  \<comment> \<open>\<open>s.substring(i, j)\<close> for \<open>i \<le> j\<close>; the indices are clamped to the length\<close>
  "substring s i j = take (j - i) (drop i s)"

fun split_from :: "char \<Rightarrow> string \<Rightarrow> string \<Rightarrow> string list" where
  "split_from sep cur [] = [cur]"
| "split_from sep cur (c # cs) =
     (if c = sep then cur # split_from sep [] cs else split_from sep (cur @ [c]) cs)"

definition split_str :: "char \<Rightarrow> string \<Rightarrow> string list" where
  \<comment> \<open>\<open>s.split(sep)\<close>: the empty string gives one empty piece\<close>
  "split_str sep s = split_from sep [] s"

fun join_str :: "string \<Rightarrow> string list \<Rightarrow> string" where
  "join_str sep [] = []"
| "join_str sep [x] = x"
| "join_str sep (x # y # ys) = x @ sep @ join_str sep (y # ys)"

section \<open>Regular expressions\<close>

text \<open>
  The patterns of the source use literals, character classes, \<open>\<bsol>s\<close>, \<open>\<bsol>b\<close>, greedy
  repetition of a class, an optional group, alternatives and capture groups.  The matcher
  is the backtracking one of the language: it returns every way to match, the one the
  engine tries first at the head of the list.
\<close>

datatype citem = Rng char char | One char | Spc

datatype regex =
    Str string
  | Cls "citem list"
  | Rep nat "citem list"
  | Bnd
  | Bol
  | Eol
  | Opt regex
  | Grp nat regex
  | Cat regex regex
  | Alt regex regex

text \<open>
  Under the flag \<open>i\<close> two characters are the same when their upper-case forms are.  The
  characters of the patterns are ASCII, and no other character has an ASCII upper-case
  form that counts, so the ASCII letters are the only ones that change.
\<close>

fun item_mem :: "bool \<Rightarrow> citem \<Rightarrow> char \<Rightarrow> bool" where
  "item_mem ic (Rng lo hi) c =
     (in_range lo hi c \<or> (ic \<and> (in_range lo hi (upperAscii c) \<or> in_range lo hi (lowerAscii c))))"
| "item_mem ic (One x) c = (c = x \<or> (ic \<and> upperAscii c = upperAscii x))"
| "item_mem ic Spc c = isSpace c"

definition class_mem :: "bool \<Rightarrow> citem list \<Rightarrow> char \<Rightarrow> bool" where
  "class_mem ic cls c = list_ex (\<lambda>i. item_mem ic i c) cls"

fun lit_match :: "bool \<Rightarrow> string \<Rightarrow> string \<Rightarrow> bool" where
  "lit_match ic [] r = True"
| "lit_match ic (p # ps) [] = False"
| "lit_match ic (p # ps) (c # cs) = (item_mem ic (One p) c \<and> lit_match ic ps cs)"

text \<open>Greedy repetition: the longest run first, then each shorter one.\<close>

fun greedy :: "(char \<Rightarrow> bool) \<Rightarrow> string \<Rightarrow> string \<Rightarrow> (string \<times> string) list" where
  "greedy p l [] = [(l, [])]"
| "greedy p l (c # cs) = (if p c then greedy p (l @ [c]) cs @ [(l, c # cs)] else [(l, c # cs)])"

type_synonym caps = "nat \<rightharpoonup> string"

text \<open>
  \<open>rx ic e (l, r) c\<close>: the text is \<open>l @ r\<close>, the position is after \<open>l\<close>, \<open>c\<close> holds the
  groups captured so far, \<open>ic\<close> is the flag \<open>i\<close>.  \<open>Rep lo cls\<close> is the class \<open>cls\<close>
  repeated \<open>lo\<close> times or more.
\<close>

fun rx :: "bool \<Rightarrow> regex \<Rightarrow> string \<times> string \<Rightarrow> caps \<Rightarrow> ((string \<times> string) \<times> caps) list" where
  "rx ic (Str p) (l, r) c =
     (if lit_match ic p r then [((l @ take (length p) r, drop (length p) r), c)] else [])"
| "rx ic (Cls cls) (l, r) c =
     (case r of [] \<Rightarrow> [] | x # xs \<Rightarrow> if class_mem ic cls x then [((l @ [x], xs), c)] else [])"
| "rx ic (Rep lo cls) (l, r) c =
     map (\<lambda>p. (p, c)) (filter (\<lambda>(l', r'). length l + lo \<le> length l') (greedy (class_mem ic cls) l r))"
| "rx ic Bnd (l, r) c =
     (if (l \<noteq> [] \<and> isWordChar (last l)) \<noteq> (r \<noteq> [] \<and> isWordChar (hd r)) then [((l, r), c)] else [])"
| "rx ic Bol (l, r) c = (if l = [] then [((l, r), c)] else [])"
| "rx ic Eol (l, r) c = (if r = [] then [((l, r), c)] else [])"
| "rx ic (Opt e) (l, r) c = rx ic e (l, r) c @ [((l, r), c)]"
| "rx ic (Grp k e) (l, r) c =
     map (\<lambda>((l', r'), c'). ((l', r'), c'(k \<mapsto> drop (length l) l'))) (rx ic e (l, r) c)"
| "rx ic (Cat e1 e2) (l, r) c = concat (map (\<lambda>(p, c'). rx ic e2 p c') (rx ic e1 (l, r) c))"
| "rx ic (Alt e1 e2) (l, r) c = rx ic e1 (l, r) c @ rx ic e2 (l, r) c"

record rmatch =
  index :: nat
  lastIndex :: nat
  groups :: caps

text \<open>
  \<open>search ic e l r\<close> tries the position after \<open>l\<close>, then each later one, and stops at the
  first position with a match.
\<close>

fun search :: "bool \<Rightarrow> regex \<Rightarrow> string \<Rightarrow> string \<Rightarrow> rmatch option" where
  "search ic e l [] =
     (case rx ic e (l, []) Map.empty of
        [] \<Rightarrow> None
      | ((l', r'), c) # _ \<Rightarrow> Some \<lparr>index = length l, lastIndex = length l', groups = c\<rparr>)"
| "search ic e l (x # xs) =
     (case rx ic e (l, x # xs) Map.empty of
        [] \<Rightarrow> search ic e (l @ [x]) xs
      | ((l', r'), c) # _ \<Rightarrow> Some \<lparr>index = length l, lastIndex = length l', groups = c\<rparr>)"

definition exec_from :: "bool \<Rightarrow> regex \<Rightarrow> string \<Rightarrow> nat \<Rightarrow> rmatch option" where
  \<comment> \<open>\<open>pattern.exec(s)\<close> when \<open>pattern.lastIndex\<close> is \<open>i\<close>; \<open>None\<close> is \<open>null\<close>\<close>
  "exec_from ic e s i = (if length s < i then None else search ic e (take i s) (drop i s))"

definition test :: "bool \<Rightarrow> regex \<Rightarrow> string \<Rightarrow> bool" where
  \<comment> \<open>\<open>pattern.test(s)\<close> of a pattern without the flag \<open>g\<close>\<close>
  "test ic e s = (exec_from ic e s 0 \<noteq> None)"

text \<open>
  The loop \<open>while ((match = pattern.exec(s)) !== null)\<close> over a pattern with the flag
  \<open>g\<close>, whose body leaves the pattern alone: the matches it sees, in order.  Each call
  starts where the last match ended.  A match that is empty and at the starting position
  leaves \<open>lastIndex\<close> where it was, so the loop sees it again for ever: that is \<open>None\<close>.
\<close>

function exec_all :: "bool \<Rightarrow> regex \<Rightarrow> string \<Rightarrow> nat \<Rightarrow> rmatch list option" where
  "exec_all ic e s i =
     (case exec_from ic e s i of
        None \<Rightarrow> Some []
      | Some m \<Rightarrow>
          if lastIndex m \<le> i then None
          else (case exec_all ic e s (lastIndex m) of None \<Rightarrow> None | Some ms \<Rightarrow> Some (m # ms)))"
  by pat_completeness auto
termination
  by (relation "measure (\<lambda>(ic, e, s, i). Suc (length s) - i)")
     (auto simp: exec_from_def split: if_splits)

declare exec_all.simps [simp del]

subsection \<open>Where a match starts and ends\<close>

lemma greedy_span:
  "(l', r') \<in> set (greedy p l r) \<Longrightarrow> l' @ r' = l @ r \<and> length l \<le> length l'"
  by (induction r arbitrary: l) (fastforce split: if_splits)+

lemma rx_span:
  "(p, c') \<in> set (rx ic e (l, r) c) \<Longrightarrow> fst p @ snd p = l @ r \<and> length l \<le> length (fst p)"
proof (induction e arbitrary: l r c p c')
  case (Str x)
  then show ?case by (auto split: if_splits)
next
  case (Cls x)
  then show ?case by (auto split: list.splits if_splits)
next
  case (Rep lo cls)
  then show ?case by (auto dest: greedy_span)
next
  case Bnd
  then show ?case by (auto split: if_splits)
next
  case Bol
  then show ?case by (auto split: if_splits)
next
  case Eol
  then show ?case by (auto split: if_splits)
next
  case (Opt e)
  from Opt.prems have "(p, c') \<in> set (rx ic e (l, r) c) \<or> (p, c') = ((l, r), c)" by auto
  then show ?case
  proof
    assume "(p, c') \<in> set (rx ic e (l, r) c)"
    from Opt.IH[OF this] show ?thesis .
  next
    assume "(p, c') = ((l, r), c)"
    then show ?thesis by simp
  qed
next
  case (Grp k e)
  from Grp.prems obtain c1 where "(p, c1) \<in> set (rx ic e (l, r) c)" by auto
  from Grp.IH[OF this] show ?case .
next
  case (Cat e1 e2)
  from Cat.prems obtain q c1 where q: "(q, c1) \<in> set (rx ic e1 (l, r) c)"
    and p: "(p, c') \<in> set (rx ic e2 q c1)" by auto
  from Cat.IH(1)[OF q] have 1: "fst q @ snd q = l @ r" "length l \<le> length (fst q)" by auto
  from p have "(p, c') \<in> set (rx ic e2 (fst q, snd q) c1)" by simp
  from Cat.IH(2)[OF this] have "fst p @ snd p = fst q @ snd q" "length (fst q) \<le> length (fst p)"
    by auto
  with 1 show ?case by simp
next
  case (Alt e1 e2)
  from Alt.prems have "(p, c') \<in> set (rx ic e1 (l, r) c) \<or> (p, c') \<in> set (rx ic e2 (l, r) c)"
    by auto
  then show ?case using Alt.IH by blast
qed

lemma rx_hd_span:
  assumes "rx ic e (l, r) c = ((l', r'), c') # rest"
  shows "l' @ r' = l @ r" and "length l \<le> length l'"
proof -
  have "((l', r'), c') \<in> set (rx ic e (l, r) c)" using assms by simp
  from rx_span[OF this] show "l' @ r' = l @ r" and "length l \<le> length l'" by auto
qed

lemma search_bounds:
  "search ic e l r = Some m \<Longrightarrow>
     length l \<le> index m \<and> index m \<le> lastIndex m \<and> lastIndex m \<le> length (l @ r)"
proof (induction r arbitrary: l)
  case Nil
  then show ?case
  proof (cases "rx ic e (l, []) Map.empty")
    case Nil
    with \<open>search ic e l [] = Some m\<close> show ?thesis by simp
  next
    case (Cons a rest)
    obtain l' r' c' where a: "a = ((l', r'), c')" by (metis surj_pair)
    from Cons a \<open>search ic e l [] = Some m\<close>
    have m: "m = \<lparr>index = length l, lastIndex = length l', groups = c'\<rparr>"
      by simp
    from rx_hd_span[OF Cons[unfolded a]] have "l' @ r' = l @ []" "length l \<le> length l'"
      by auto
    then have "length l' \<le> length (l @ [])" by (metis length_append le_add1)
    with m \<open>length l \<le> length l'\<close> show ?thesis by simp
  qed
next
  case (Cons x xs)
  show ?case
  proof (cases "rx ic e (l, x # xs) Map.empty")
    case Nil
    with Cons.prems have "search ic e (l @ [x]) xs = Some m" by simp
    from Cons.IH[OF this] show ?thesis by simp
  next
    case (Cons a rest)
    obtain l' r' c' where a: "a = ((l', r'), c')" by (metis surj_pair)
    from Cons a Cons.prems have m: "m = \<lparr>index = length l, lastIndex = length l', groups = c'\<rparr>"
      by simp
    from rx_hd_span[OF Cons[unfolded a]] have "l' @ r' = l @ x # xs" "length l \<le> length l'"
      by auto
    then have "length l' \<le> length (l @ x # xs)" by (metis length_append le_add1)
    with m \<open>length l \<le> length l'\<close> show ?thesis by simp
  qed
qed

lemma exec_from_bounds:
  assumes "exec_from ic e s i = Some m"
  shows "i \<le> index m" and "index m \<le> lastIndex m" and "lastIndex m \<le> length s"
proof -
  from assms have i: "i \<le> length s" and s: "search ic e (take i s) (drop i s) = Some m"
    by (auto simp: exec_from_def split: if_splits)
  from search_bounds[OF s] i
  show "i \<le> index m" and "index m \<le> lastIndex m" and "lastIndex m \<le> length s" by auto
qed

text \<open>
  \<open>s.replace(pattern, rep)\<close> for a pattern with the flag \<open>g\<close> and a replacement without
  \<open>$\<close>: every match, found as \<open>exec\<close> finds them, is replaced; after an empty match the
  search goes on one character further.  \<open>pos\<close> is the end of the last match, \<open>i\<close> the
  position the search goes on from.
\<close>

function replace_from :: "bool \<Rightarrow> regex \<Rightarrow> string \<Rightarrow> string \<Rightarrow> nat \<Rightarrow> nat \<Rightarrow> string" where
  "replace_from ic e rep s pos i =
     (case exec_from ic e s i of
        None \<Rightarrow> drop pos s
      | Some m \<Rightarrow>
          substring s pos (index m) @ rep @
          replace_from ic e rep s (lastIndex m)
            (if lastIndex m = index m then Suc (lastIndex m) else lastIndex m))"
  by pat_completeness auto
termination
proof (relation "measure (\<lambda>(ic, e, rep, s, pos, i). Suc (length s) - i)", goal_cases)
  case 1
  show ?case by simp
next
  case (2 ic e rep s pos i m)
  from exec_from_bounds[OF 2] show ?case by auto
qed

declare replace_from.simps [simp del]

definition replace_all :: "bool \<Rightarrow> regex \<Rightarrow> string \<Rightarrow> string \<Rightarrow> string" where
  "replace_all ic e rep s = replace_from ic e rep s 0 0"

section \<open>The identifier list parser\<close>

definition bracketsAndQuotes :: regex where
  \<comment> \<open>\<open>/[\[\]"']/g\<close>\<close>
  "bracketsAndQuotes = Cls [One CHR ''['', One CHR '']'', One CHR 0x22, One CHR 0x27]"

definition andWord :: regex where
  \<comment> \<open>\<open>/\s+and\s+/gi\<close>\<close>
  "andWord = Cat (Rep 1 [Spc]) (Cat (Str ''and'') (Rep 1 [Spc]))"

definition parseUserStoryIds :: "string \<Rightarrow> string list" where
  "parseUserStoryIds userStoryIds =
     filter (\<lambda>id. length id > 0)
       (map trim
         (split_str CHR '',''
           (replace_all True andWord '',''
             (replace_all False bracketsAndQuotes [] userStoryIds))))"

section \<open>The change description parser\<close>

text \<open>
  A value read from \<open>typeMap\<close> is one of its strings, or, for a key that \<open>typeMap\<close> does
  not have itself, a property that every object inherits, which is not a string.
\<close>

datatype tvalue = TypeName string | Inherited string

record change =
  ch_a :: string
  ch_n :: string
  ch_t :: tvalue
  ch_m :: string

definition typeMap :: "(string \<times> string) list" where
  "typeMap =
    [(''apex class'', ''ApexClass''),
     (''class'', ''ApexClass''),
     (''apex trigger'', ''ApexTrigger''),
     (''trigger'', ''ApexTrigger''),
     (''lightning component'', ''LightningComponentBundle''),
     (''lwc'', ''LightningComponentBundle''),
     (''component'', ''LightningComponentBundle''),
     (''flow'', ''Flow''),
     (''custom object'', ''CustomObject''),
     (''object'', ''CustomObject''),
     (''custom field'', ''CustomField''),
     (''field'', ''CustomField''),
     (''layout'', ''Layout''),
     (''permission set'', ''PermissionSet''),
     (''profile'', ''Profile''),
     (''custom label'', ''CustomLabel''),
     (''label'', ''CustomLabel''),
     (''validation rule'', ''ValidationRule''),
     (''workflow rule'', ''WorkflowRule''),
     (''email template'', ''EmailTemplate''),
     (''report'', ''Report''),
     (''dashboard'', ''Dashboard'')]"

definition objectPrototype :: "string list" where
  \<comment> \<open>the properties an object literal inherits\<close>
  "objectPrototype =
    [''constructor'', ''hasOwnProperty'', ''isPrototypeOf'', ''propertyIsEnumerable'',
     ''toLocaleString'', ''toString'', ''valueOf'', ''__defineGetter__'', ''__defineSetter__'',
     ''__lookupGetter__'', ''__lookupSetter__'', ''__proto__'']"

definition typeMap_get :: "string \<Rightarrow> tvalue option" where
  \<comment> \<open>\<open>key in typeMap\<close> is \<open>typeMap_get key \<noteq> None\<close>, and then \<open>typeMap[key]\<close> is the value\<close>
  "typeMap_get key =
     (case map_of typeMap key of
        Some ty \<Rightarrow> Some (TypeName ty)
      | None \<Rightarrow> if key \<in> set objectPrototype then Some (Inherited key) else None)"

definition actionMap :: "(string \<times> string) list" where
  "actionMap =
    [(''added'', ''Add''),
     (''created'', ''Add''),
     (''new'', ''Add''),
     (''modified'', ''Add''),
     (''changed'', ''Add''),
     (''updated'', ''Add''),
     (''edited'', ''Add''),
     (''deleted'', ''Delete''),
     (''removed'', ''Delete'')]"

definition excludeWords :: "string list" where
  "excludeWords =
    [''the'', ''and'', ''or'', ''but'', ''in'', ''on'', ''at'', ''to'', ''for'', ''of'', ''with'', ''by'',
     ''made'', ''some'', ''changes'', ''also'', ''gave'', ''access'', ''it'', ''them'', ''this'', ''that'',
     ''add'', ''modify'', ''delete'', ''user'', ''story'', ''updated'', ''created'', ''modified'',
     ''changed'', ''new'', ''old'', ''existing'', ''current'', ''previous'', ''next'', ''first'', ''last'']"

definition defaultModule :: string where
  "defaultModule = ''force-app/main/default''"

fun firstIncluded :: "(string \<times> string) list \<Rightarrow> string \<Rightarrow> string \<Rightarrow> string" where
  \<comment> \<open>the loop over the entries of a table that stops at the first key the text includes\<close>
  "firstIncluded [] str dflt = dflt"
| "firstIncluded ((keyword, v) # rest) str dflt =
     (if includes_str str keyword then v else firstIncluded rest str dflt)"

definition defaultAction :: "string \<Rightarrow> string" where
  "defaultAction description = firstIncluded actionMap (toLowerCase description) ''Add''"

definition upperClass :: "citem list" where
  "upperClass = [Rng CHR ''A'' CHR ''Z'']"

definition wordClass :: "citem list" where
  "wordClass = [Rng CHR ''A'' CHR ''Z'', Rng CHR ''a'' CHR ''z'', Rng CHR ''0'' CHR ''9'', One CHR ''_'']"

definition identPattern :: regex where
  \<comment> \<open>\<open>[A-Z][A-Za-z0-9_]*\<close>\<close>
  "identPattern = Cat (Cls upperClass) (Rep 0 wordClass)"

definition typeWord :: regex where
  \<comment> \<open>\<open>class|trigger|component|flow|object|field|layout|profile|label\<close>\<close>
  "typeWord =
     Alt (Str ''class'') (Alt (Str ''trigger'') (Alt (Str ''component'') (Alt (Str ''flow'')
     (Alt (Str ''object'') (Alt (Str ''field'') (Alt (Str ''layout'') (Alt (Str ''profile'')
     (Str ''label''))))))))"

definition quoteClass :: "citem list" where
  "quoteClass = [One CHR 0x22, One CHR 0x27]"

definition componentPatterns :: "(bool \<times> regex) list" where
  \<comment> \<open>each pattern with its flag \<open>i\<close>; all have the flag \<open>g\<close>\<close>
  "componentPatterns =
    [(True, Cat Bnd (Cat (Grp 1 identPattern) (Cat (Rep 1 [Spc]) (Cat (Grp 2 typeWord) Bnd)))),
     (True, Cat Bnd (Cat (Grp 1 typeWord) (Cat (Rep 1 [Spc]) (Cat (Grp 2 identPattern) Bnd)))),
     (True, Cat Bnd (Cat (Opt (Cat (Str ''apex'') (Rep 1 [Spc])))
              (Cat (Grp 1 typeWord) (Cat (Rep 1 [Spc]) (Cat (Grp 2 identPattern) Bnd))))),
     (True, Cat Bnd (Cat (Grp 1 identPattern) (Cat (Rep 1 [Spc]) (Cat (Str ''apex'')
              (Cat (Rep 1 [Spc]) (Cat (Grp 2 (Alt (Str ''class'') (Str ''trigger''))) Bnd)))))),
     (False, Cat (Cls quoteClass)
              (Cat (Grp 1 (Cat (Cls upperClass) (Rep 1 wordClass))) (Cls quoteClass)))]"

definition namePattern :: regex where
  \<comment> \<open>\<open>/^[A-Z][A-Za-z0-9_]*$/\<close>\<close>
  "namePattern = Cat Bol (Cat identPattern Eol)"

definition fallbackPattern :: regex where
  \<comment> \<open>\<open>/\b([A-Z][A-Za-z0-9_]{2,})\b/g\<close>\<close>
  "fallbackPattern = Cat Bnd (Cat (Grp 1 (Cat (Cls upperClass) (Rep 2 wordClass))) Bnd)"

text \<open>
  \<open>foundComponents\<close> is a \<open>Map\<close>: its entries in the order of their first insertion;
  \<open>set\<close> on a key it has replaces the value where it is.
\<close>

type_synonym components = "(string \<times> tvalue) list"

fun map_set :: "string \<Rightarrow> tvalue \<Rightarrow> components \<Rightarrow> components" where
  "map_set k v [] = [(k, v)]"
| "map_set k v ((k', v') # rest) = (if k' = k then (k, v) # rest else (k', v') # map_set k v rest)"

definition truthy :: "string option \<Rightarrow> bool" where
  \<comment> \<open>a group that took part in the match and is not the empty string\<close>
  "truthy g = (case g of None \<Rightarrow> False | Some x \<Rightarrow> x \<noteq> [])"

text \<open>
  The first half of the body of the loop over the matches: the name and the type of the
  match; \<open>None\<close> is the \<open>continue\<close>.  The name is \<open>None\<close> when group 1 is undefined.
\<close>

definition nameAndType :: "rmatch \<Rightarrow> (string option \<times> tvalue) option" where
  "nameAndType match =
     (case (groups match 1, groups match 2) of
        (Some first, Some second) \<Rightarrow>
          if first \<noteq> [] \<and> second \<noteq> [] then
            (case typeMap_get (toLowerCase second) of
               Some ty \<Rightarrow> Some (Some first, ty)
             | None \<Rightarrow>
                 (case typeMap_get (toLowerCase first) of
                    Some ty \<Rightarrow> Some (Some second, ty)
                  | None \<Rightarrow> None))
          else Some (Some first, TypeName ''ApexClass'')
      | (g1, _) \<Rightarrow> Some (g1, TypeName ''ApexClass''))"

definition validName :: "string option \<Rightarrow> bool" where
  "validName componentName =
     (case componentName of
        None \<Rightarrow> False
      | Some name \<Rightarrow>
          name \<noteq> [] \<and> length name > 1 \<and> toLowerCase name \<notin> set excludeWords
          \<and> test False namePattern name)"

definition accepted :: "rmatch \<Rightarrow> (string \<times> tvalue) option" where
  \<comment> \<open>the pair that the body of the loop gives to \<open>foundComponents.set\<close>, if it does\<close>
  "accepted match =
     (case nameAndType match of
        None \<Rightarrow> None
      | Some (componentName, componentType) \<Rightarrow>
          (case componentName of
             None \<Rightarrow> None
           | Some name \<Rightarrow> if validName componentName then Some (name, componentType) else None))"

definition processMatch :: "components \<Rightarrow> rmatch \<Rightarrow> components" where
  "processMatch foundComponents match =
     (case accepted match of
        None \<Rightarrow> foundComponents
      | Some (name, ty) \<Rightarrow> map_set name ty foundComponents)"

fun processPatterns :: "(bool \<times> regex) list \<Rightarrow> string \<Rightarrow> components \<Rightarrow> components option" where
  "processPatterns [] description foundComponents = Some foundComponents"
| "processPatterns ((ic, pattern) # rest) description foundComponents =
     (case exec_all ic pattern description 0 of
        None \<Rightarrow> None
      | Some matches \<Rightarrow> processPatterns rest description (foldl processMatch foundComponents matches))"

definition fallbackNames :: "string list" where
  "fallbackNames = [''Add'', ''Modify'', ''Delete'', ''User'', ''Story'']"

definition processFallback :: "string \<Rightarrow> components \<Rightarrow> rmatch \<Rightarrow> components" where
  "processFallback description foundComponents match =
     (case groups match 1 of
        None \<Rightarrow> foundComponents
      | Some name \<Rightarrow>
          if toLowerCase name \<notin> set excludeWords \<and> length name > 2 \<and> name \<notin> set fallbackNames
          then
            let beforeText = toLowerCase (substring description (index match - 20) (index match));
                afterText = toLowerCase (substring description (index match + length name)
                                           (index match + length name + 20));
                contextText = beforeText @ '' '' @ afterText;
                inferredType = firstIncluded typeMap contextText ''ApexClass''
            in map_set name (TypeName inferredType) foundComponents
          else foundComponents)"

definition toChange :: "string \<Rightarrow> string \<times> tvalue \<Rightarrow> change" where
  "toChange action entry = \<lparr>ch_a = action, ch_n = fst entry, ch_t = snd entry, ch_m = defaultModule\<rparr>"

definition unknownComponent :: "string \<Rightarrow> change" where
  "unknownComponent action =
     \<lparr>ch_a = action, ch_n = ''UnknownComponent'', ch_t = TypeName ''ApexClass'', ch_m = defaultModule\<rparr>"

text \<open>
  The two passes over the description.  The result of each is \<open>None\<close> when one of its
  loops over the matches does not end.
\<close>

definition patternPass :: "string \<Rightarrow> components option" where
  "patternPass description = processPatterns componentPatterns description []"

definition fallbackPass :: "string \<Rightarrow> components \<Rightarrow> components option" where
  "fallbackPass description foundComponents =
     (case exec_all False fallbackPattern description 0 of
        None \<Rightarrow> None
      | Some matches \<Rightarrow> Some (foldl (processFallback description) foundComponents matches))"

definition parseChangesToCopadoFormat :: "string \<Rightarrow> change list option" where
  "parseChangesToCopadoFormat description =
     (case patternPass description of
        None \<Rightarrow> None
      | Some found1 \<Rightarrow>
          (case (if length found1 = 0 then fallbackPass description found1 else Some found1) of
             None \<Rightarrow> None
           | Some foundComponents \<Rightarrow>
               Some (if length foundComponents > 0
                     then map (toChange (defaultAction description)) foundComponents
                     else [unknownComponent (defaultAction description)])))"

section \<open>The four tools\<close>

text \<open>
  A tool builds one request and sends it.  The model of \<open>execute\<close> has two parts: the
  statements before \<open>fetch\<close>, which end either with a thrown error or with the request
  that \<open>fetch\<close> is called with, and the rest, of which the model keeps only whether it
  throws.  \<open>env\<close> is \<open>process.env.COPADO_API_KEY\<close>.  An absent parameter is \<open>None\<close>.
\<close>

record CommitInput =
  userStoryId :: string
  changesDescription :: string
  commitMessage :: "string option"
  commit_apiKey :: "string option"

record PromoteInput =
  userStoryIds :: string
  executeDeployment :: bool
  deploymentDryRun :: bool
  promote_apiKey :: "string option"

record DeployPromotionInput =
  promotionId :: string
  deploy_apiKey :: "string option"

record CheckJobStatusInput =
  jobExecutionId :: string
  check_apiKey :: "string option"

datatype payload =
    CommitPayload string "change list" string
  | PromotionPayload "string list" bool bool string
  | DeploymentPayload string
  | StatusPayload string

record request =
  url :: string
  webhookKeyHeader :: string
  action :: string
  key :: string
  payload :: payload

definition falsy :: "string option \<Rightarrow> bool" where
  \<comment> \<open>\<open>!x\<close> for a value that is a string or undefined\<close>
  "falsy x = (case x of None \<Rightarrow> True | Some v \<Rightarrow> v = [])"

definition orElse :: "string option \<Rightarrow> string option \<Rightarrow> string option" where
  \<comment> \<open>\<open>x || y\<close>\<close>
  "orElse x y = (if falsy x then y else x)"

definition apiKeyRequired :: string where
  "apiKeyRequired =
     ''API key is required. Provide it as a parameter or set COPADO_API_KEY environment variable.''"

definition noUserStoryIds :: string where
  "noUserStoryIds =
     ''No valid user story IDs provided. Please provide at least one user story ID.''"

definition mkRequest :: "string \<Rightarrow> string \<Rightarrow> string \<Rightarrow> payload \<Rightarrow> request" where
  "mkRequest endpoint act authToken p =
     \<lparr>url = ''https://app-api.copado.com/json/v1/webhook/mcwebhook/'' @ endpoint,
      webhookKeyHeader = authToken, action = act, key = authToken, payload = p\<rparr>"

text \<open>
  The result of each \<open>prepare\<close>: \<open>Inl\<close> is the message of the error thrown before
  \<open>fetch\<close>, \<open>Inr\<close> the request.  That of \<open>commit_prepare\<close> is \<open>None\<close> when the parser does
  not return.
\<close>

definition commit_prepare :: "CommitInput \<Rightarrow> string option \<Rightarrow> (string + request) option" where
  "commit_prepare inp env =
     (let authToken = commit_apiKey inp in
      if falsy authToken then Some (Inl apiKeyRequired)
      else
        (case parseChangesToCopadoFormat (changesDescription inp) of
           None \<Rightarrow> None
         | Some parsedChanges \<Rightarrow>
             let message = (if falsy (commitMessage inp)
                            then ''Commit changes: '' @ changesDescription inp
                            else the (commitMessage inp))
             in Some (Inr (mkRequest ''commit'' ''Commit'' (the authToken)
                        (CommitPayload (userStoryId inp) parsedChanges message)))))"

definition promote_prepare :: "PromoteInput \<Rightarrow> string option \<Rightarrow> string + request" where
  "promote_prepare inp env =
     (let authToken = promote_apiKey inp in
      if falsy authToken then Inl apiKeyRequired
      else
        let parsedUserStoryIds = parseUserStoryIds (userStoryIds inp) in
        if length parsedUserStoryIds = 0 then Inl noUserStoryIds
        else Inr (mkRequest ''promotion'' ''Promotion'' (the authToken)
               (PromotionPayload parsedUserStoryIds (executeDeployment inp) (deploymentDryRun inp)
                  ''a0c8c00000LpAxEAAV'')))"

definition deploy_prepare :: "DeployPromotionInput \<Rightarrow> string option \<Rightarrow> string + request" where
  "deploy_prepare inp env =
     (let authToken = env in
      if falsy authToken then Inl apiKeyRequired
      else Inr (mkRequest ''promotiondeployment'' ''PromotionDeployment'' (the authToken)
             (DeploymentPayload (promotionId inp))))"

definition check_prepare :: "CheckJobStatusInput \<Rightarrow> string option \<Rightarrow> string + request" where
  "check_prepare inp env =
     (let authToken = orElse (check_apiKey inp) env in
      if falsy authToken then Inl apiKeyRequired
      else Inr (mkRequest ''checkStatusAction'' ''CheckStatusAction'' (the authToken)
             (StatusPayload (jobExecutionId inp))))"

record toolResult =
  isError :: bool
  requests :: "request list"

text \<open>
  \<open>execute\<close>: an error thrown before \<open>fetch\<close> is caught and gives the result with
  \<open>isError\<close>, no request made; otherwise the one request is made and \<open>rest rq\<close> says
  whether the statements from \<open>fetch\<close> on throw.
\<close>

definition execute :: "string + request \<Rightarrow> (request \<Rightarrow> bool) \<Rightarrow> toolResult" where
  "execute prepared rest =
     (case prepared of
        Inl msg \<Rightarrow> \<lparr>isError = True, requests = []\<rparr>
      | Inr rq \<Rightarrow> \<lparr>isError = rest rq, requests = [rq]\<rparr>)"

section \<open>The status of a job\<close>

text \<open>
  The texts shown to the user have characters beyond Latin-1: they are lists of code
  points.
\<close>

type_synonym utext = "nat list"

definition ascii :: "string \<Rightarrow> utext" where
  "ascii s = map of_char s"

record statusView =
  statusEmoji :: utext
  statusColor :: string
  nextSteps :: utext

definition completedView :: statusView where
  "completedView =
     \<lparr>statusEmoji = [0x2705], statusColor = ''GREEN'',
      nextSteps = 0x1F389 # ascii '' Deployment completed successfully! Check your destination org.''\<rparr>"

definition failedView :: statusView where
  "failedView =
     \<lparr>statusEmoji = [0x274C], statusColor = ''RED'',
      nextSteps = 0x1F50D # ascii '' Check the error details and retry if needed.''\<rparr>"

definition runningView :: statusView where
  "runningView =
     \<lparr>statusEmoji = [0x1F504], statusColor = ''BLUE'',
      nextSteps = 0x23F0 # ascii '' Deployment is still running. Check again in a few minutes.''\<rparr>"

definition queuedView :: statusView where
  "queuedView =
     \<lparr>statusEmoji = [0x23F3], statusColor = ''YELLOW'',
      nextSteps = 0x1F4CB # ascii '' Job is queued and will start shortly.''\<rparr>"

definition unknownView :: statusView where
  "unknownView =
     \<lparr>statusEmoji = [0x2754], statusColor = ''GRAY'',
      nextSteps = 0x1F50D # ascii '' Unknown status. Check Copado org for details.''\<rparr>"

text \<open>
  A \<open>switch\<close> whose cases each end in \<open>break\<close> or are empty: the value is compared with
  the labels in order; from the first equal label on, control falls through the empty
  cases to the first body.  Without an equal label the \<open>default\<close> runs.
\<close>

fun fallThrough :: "(string \<times> 'a option) list \<Rightarrow> 'a \<Rightarrow> 'a" where
  "fallThrough [] dflt = dflt"
| "fallThrough ((label, Some body) # rest) dflt = body"
| "fallThrough ((label, None) # rest) dflt = fallThrough rest dflt"

fun switchOn :: "string \<Rightarrow> (string \<times> 'a option) list \<Rightarrow> 'a \<Rightarrow> 'a" where
  "switchOn v [] dflt = dflt"
| "switchOn v ((label, body) # rest) dflt =
     (if v = label then fallThrough ((label, body) # rest) dflt else switchOn v rest dflt)"

definition statusSwitch :: "string \<Rightarrow> statusView" where
  "statusSwitch status =
     switchOn (toLowerCase status)
       [(''completed'', None),
        (''success'', Some completedView),
        (''failed'', None),
        (''error'', Some failedView),
        (''in progress'', None),
        (''running'', Some runningView),
        (''not started'', None),
        (''queued'', Some queuedView)]
       unknownView"

section \<open>The loops over the matches end\<close>

text \<open>A pattern that cannot match the empty string, by its form.\<close>

fun nonnull :: "regex \<Rightarrow> bool" where
  "nonnull (Str p) = (p \<noteq> [])"
| "nonnull (Cls cls) = True"
| "nonnull (Rep lo cls) = (0 < lo)"
| "nonnull Bnd = False"
| "nonnull Bol = False"
| "nonnull Eol = False"
| "nonnull (Opt e) = False"
| "nonnull (Grp k e) = nonnull e"
| "nonnull (Cat e1 e2) = (nonnull e1 \<or> nonnull e2)"
| "nonnull (Alt e1 e2) = (nonnull e1 \<and> nonnull e2)"

lemma lit_match_length: "lit_match ic p r \<Longrightarrow> length p \<le> length r"
  by (induction ic p r rule: lit_match.induct) auto

lemma rx_advance:
  "nonnull e \<Longrightarrow> (p, c') \<in> set (rx ic e (l, r) c) \<Longrightarrow> length l < length (fst p)"
proof (induction e arbitrary: l r c p c')
  case (Str x)
  then show ?case by (auto split: if_splits dest: lit_match_length)
next
  case (Cls x)
  then show ?case by (auto split: list.splits if_splits)
next
  case (Rep lo cls)
  then show ?case by auto
next
  case (Grp k e)
  from Grp.prems obtain c1 where "(p, c1) \<in> set (rx ic e (l, r) c)" by auto
  from Grp.IH[OF _ this] Grp.prems(1) show ?case by simp
next
  case (Cat e1 e2)
  from Cat.prems obtain q c1 where q: "(q, c1) \<in> set (rx ic e1 (l, r) c)"
    and p: "(p, c') \<in> set (rx ic e2 (fst q, snd q) c1)" by auto
  from rx_span[OF q] have q1: "length l \<le> length (fst q)" by simp
  from rx_span[OF p] have p1: "length (fst q) \<le> length (fst p)" by simp
  from Cat.prems(1) consider "nonnull e1" | "nonnull e2" by auto
  then show ?case
  proof cases
    case 1
    from Cat.IH(1)[OF 1 q] p1 show ?thesis by simp
  next
    case 2
    from Cat.IH(2)[OF 2 p] q1 show ?thesis by simp
  qed
next
  case (Alt e1 e2)
  from Alt.prems have "(p, c') \<in> set (rx ic e1 (l, r) c) \<or> (p, c') \<in> set (rx ic e2 (l, r) c)"
    by auto
  then show ?case
  proof
    assume a: "(p, c') \<in> set (rx ic e1 (l, r) c)"
    from Alt.prems(1) have "nonnull e1" by simp
    from Alt.IH(1)[OF this a] show ?thesis .
  next
    assume a: "(p, c') \<in> set (rx ic e2 (l, r) c)"
    from Alt.prems(1) have "nonnull e2" by simp
    from Alt.IH(2)[OF this a] show ?thesis .
  qed
qed simp_all

lemma search_advance:
  "nonnull e \<Longrightarrow> search ic e l r = Some m \<Longrightarrow> index m < lastIndex m"
proof (induction r arbitrary: l)
  case Nil
  then show ?case
  proof (cases "rx ic e (l, []) Map.empty")
    case Nil
    with \<open>search ic e l [] = Some m\<close> show ?thesis by simp
  next
    case (Cons a rest)
    obtain l' r' c' where a: "a = ((l', r'), c')" by (metis surj_pair)
    from Cons a \<open>search ic e l [] = Some m\<close>
    have m: "m = \<lparr>index = length l, lastIndex = length l', groups = c'\<rparr>" by simp
    have "((l', r'), c') \<in> set (rx ic e (l, []) Map.empty)" using Cons a by simp
    from rx_advance[OF \<open>nonnull e\<close> this] m show ?thesis by simp
  qed
next
  case (Cons x xs)
  show ?case
  proof (cases "rx ic e (l, x # xs) Map.empty")
    case Nil
    with Cons.prems have "search ic e (l @ [x]) xs = Some m" by simp
    from Cons.IH[OF Cons.prems(1) this] show ?thesis .
  next
    case (Cons a rest)
    obtain l' r' c' where a: "a = ((l', r'), c')" by (metis surj_pair)
    from Cons a Cons.prems
    have m: "m = \<lparr>index = length l, lastIndex = length l', groups = c'\<rparr>" by simp
    have "((l', r'), c') \<in> set (rx ic e (l, x # xs) Map.empty)" using Cons a by simp
    from rx_advance[OF \<open>nonnull e\<close> this] m show ?thesis by simp
  qed
qed

lemma exec_from_advance:
  assumes "nonnull e" and "exec_from ic e s i = Some m"
  shows "i < lastIndex m"
proof -
  from assms(2) have "search ic e (take i s) (drop i s) = Some m"
    by (auto simp: exec_from_def split: if_splits)
  from search_advance[OF assms(1) this] exec_from_bounds(1)[OF assms(2)] show ?thesis by simp
qed

lemma exec_all_total: "nonnull e \<Longrightarrow> \<exists>ms. exec_all ic e s i = Some ms"
proof (induction ic e s i rule: exec_all.induct)
  case (1 ic e s i)
  show ?case
  proof (cases "exec_from ic e s i")
    case None
    then show ?thesis by (subst exec_all.simps) simp
  next
    case (Some m)
    from exec_from_advance[OF "1.prems" Some] have adv: "\<not> lastIndex m \<le> i" by simp
    from "1.IH"[OF Some adv "1.prems"] obtain ms where "exec_all ic e s (lastIndex m) = Some ms" ..
    with Some adv show ?thesis by (subst exec_all.simps) simp
  qed
qed

lemma processPatterns_total:
  "\<forall>p \<in> set ps. nonnull (snd p) \<Longrightarrow> \<exists>f. processPatterns ps d found = Some f"
proof (induction ps arbitrary: found)
  case Nil
  then show ?case by simp
next
  case (Cons p ps)
  obtain ic e where p: "p = (ic, e)" by (cases p)
  from Cons.prems p have "nonnull e" by simp
  from exec_all_total[OF this] obtain ms where ms: "exec_all ic e d 0 = Some ms" by blast
  from Cons.prems have "\<forall>p \<in> set ps. nonnull (snd p)" by simp
  from Cons.IH[OF this] obtain f where "processPatterns ps d (foldl processMatch found ms) = Some f"
    by blast
  with p ms show ?case by simp
qed

lemma componentPatterns_nonnull: "\<forall>p \<in> set componentPatterns. nonnull (snd p)"
  by (simp add: componentPatterns_def identPattern_def typeWord_def)

lemma patternPass_total: "\<exists>f. patternPass d = Some f"
  unfolding patternPass_def by (rule processPatterns_total[OF componentPatterns_nonnull])

lemma fallbackPass_total: "\<exists>f. fallbackPass d found = Some f"
proof -
  have "nonnull fallbackPattern" by (simp add: fallbackPattern_def)
  from exec_all_total[OF this] obtain ms where "exec_all False fallbackPattern d 0 = Some ms"
    by blast
  then show ?thesis by (simp add: fallbackPass_def)
qed

lemma parse_total: "\<exists>changes. parseChangesToCopadoFormat d = Some changes"
proof -
  obtain f1 where f1: "patternPass d = Some f1" using patternPass_total by blast
  obtain f2 where f2: "fallbackPass d f1 = Some f2" using fallbackPass_total by blast
  show ?thesis
  proof (cases "f1 = []")
    case True
    with f2 have "fallbackPass d [] = Some f2" by simp
    with True show ?thesis by (simp add: parseChangesToCopadoFormat_def f1)
  next
    case False
    then show ?thesis by (simp add: parseChangesToCopadoFormat_def f1)
  qed
qed

section \<open>Evaluating the model on a given text\<close>

text \<open>The codes of the printable ASCII characters, in both directions.\<close>

lemma charCode_table:
  "charCode (CHR '' '') = 32"
  "charCode (CHR ''!'') = 33"
  "charCode (CHR 0x22) = 34"
  "charCode (CHR ''#'') = 35"
  "charCode (CHR ''$'') = 36"
  "charCode (CHR ''%'') = 37"
  "charCode (CHR ''&'') = 38"
  "charCode (CHR 0x27) = 39"
  "charCode (CHR ''('') = 40"
  "charCode (CHR '')'') = 41"
  "charCode (CHR ''*'') = 42"
  "charCode (CHR ''+'') = 43"
  "charCode (CHR '','') = 44"
  "charCode (CHR ''-'') = 45"
  "charCode (CHR ''.'') = 46"
  "charCode (CHR ''/'') = 47"
  "charCode (CHR ''0'') = 48"
  "charCode (CHR ''1'') = 49"
  "charCode (CHR ''2'') = 50"
  "charCode (CHR ''3'') = 51"
  "charCode (CHR ''4'') = 52"
  "charCode (CHR ''5'') = 53"
  "charCode (CHR ''6'') = 54"
  "charCode (CHR ''7'') = 55"
  "charCode (CHR ''8'') = 56"
  "charCode (CHR ''9'') = 57"
  "charCode (CHR '':'') = 58"
  "charCode (CHR '';'') = 59"
  "charCode (CHR ''<'') = 60"
  "charCode (CHR ''='') = 61"
  "charCode (CHR ''>'') = 62"
  "charCode (CHR ''?'') = 63"
  "charCode (CHR ''@'') = 64"
  "charCode (CHR ''A'') = 65"
  "charCode (CHR ''B'') = 66"
  "charCode (CHR ''C'') = 67"
  "charCode (CHR ''D'') = 68"
  "charCode (CHR ''E'') = 69"
  "charCode (CHR ''F'') = 70"
  "charCode (CHR ''G'') = 71"
  "charCode (CHR ''H'') = 72"
  "charCode (CHR ''I'') = 73"
  "charCode (CHR ''J'') = 74"
  "charCode (CHR ''K'') = 75"
  "charCode (CHR ''L'') = 76"
  "charCode (CHR ''M'') = 77"
  "charCode (CHR ''N'') = 78"
  "charCode (CHR ''O'') = 79"
  "charCode (CHR ''P'') = 80"
  "charCode (CHR ''Q'') = 81"
  "charCode (CHR ''R'') = 82"
  "charCode (CHR ''S'') = 83"
  "charCode (CHR ''T'') = 84"
  "charCode (CHR ''U'') = 85"
  "charCode (CHR ''V'') = 86"
  "charCode (CHR ''W'') = 87"
  "charCode (CHR ''X'') = 88"
  "charCode (CHR ''Y'') = 89"
  "charCode (CHR ''Z'') = 90"
  "charCode (CHR ''['') = 91"
  "charCode (CHR 0x5C) = 92"
  "charCode (CHR '']'') = 93"
  "charCode (CHR ''^'') = 94"
  "charCode (CHR ''_'') = 95"
  "charCode (CHR 0x60) = 96"
  "charCode (CHR ''a'') = 97"
  "charCode (CHR ''b'') = 98"
  "charCode (CHR ''c'') = 99"
  "charCode (CHR ''d'') = 100"
  "charCode (CHR ''e'') = 101"
  "charCode (CHR ''f'') = 102"
  "charCode (CHR ''g'') = 103"
  "charCode (CHR ''h'') = 104"
  "charCode (CHR ''i'') = 105"
  "charCode (CHR ''j'') = 106"
  "charCode (CHR ''k'') = 107"
  "charCode (CHR ''l'') = 108"
  "charCode (CHR ''m'') = 109"
  "charCode (CHR ''n'') = 110"
  "charCode (CHR ''o'') = 111"
  "charCode (CHR ''p'') = 112"
  "charCode (CHR ''q'') = 113"
  "charCode (CHR ''r'') = 114"
  "charCode (CHR ''s'') = 115"
  "charCode (CHR ''t'') = 116"
  "charCode (CHR ''u'') = 117"
  "charCode (CHR ''v'') = 118"
  "charCode (CHR ''w'') = 119"
  "charCode (CHR ''x'') = 120"
  "charCode (CHR ''y'') = 121"
  "charCode (CHR ''z'') = 122"
  "charCode (CHR ''{'') = 123"
  "charCode (CHR ''|'') = 124"
  "charCode (CHR ''}'') = 125"
  "charCode (CHR ''~'') = 126"
  by (simp_all add: charCode_def)

lemma char_of_table:
  "char_of (32::nat) = CHR '' ''"
  "char_of (33::nat) = CHR ''!''"
  "char_of (34::nat) = CHR 0x22"
  "char_of (35::nat) = CHR ''#''"
  "char_of (36::nat) = CHR ''$''"
  "char_of (37::nat) = CHR ''%''"
  "char_of (38::nat) = CHR ''&''"
  "char_of (39::nat) = CHR 0x27"
  "char_of (40::nat) = CHR ''(''"
  "char_of (41::nat) = CHR '')''"
  "char_of (42::nat) = CHR ''*''"
  "char_of (43::nat) = CHR ''+''"
  "char_of (44::nat) = CHR '',''"
  "char_of (45::nat) = CHR ''-''"
  "char_of (46::nat) = CHR ''.''"
  "char_of (47::nat) = CHR ''/''"
  "char_of (48::nat) = CHR ''0''"
  "char_of (49::nat) = CHR ''1''"
  "char_of (50::nat) = CHR ''2''"
  "char_of (51::nat) = CHR ''3''"
  "char_of (52::nat) = CHR ''4''"
  "char_of (53::nat) = CHR ''5''"
  "char_of (54::nat) = CHR ''6''"
  "char_of (55::nat) = CHR ''7''"
  "char_of (56::nat) = CHR ''8''"
  "char_of (57::nat) = CHR ''9''"
  "char_of (58::nat) = CHR '':''"
  "char_of (59::nat) = CHR '';''"
  "char_of (60::nat) = CHR ''<''"
  "char_of (61::nat) = CHR ''=''"
  "char_of (62::nat) = CHR ''>''"
  "char_of (63::nat) = CHR ''?''"
  "char_of (64::nat) = CHR ''@''"
  "char_of (65::nat) = CHR ''A''"
  "char_of (66::nat) = CHR ''B''"
  "char_of (67::nat) = CHR ''C''"
  "char_of (68::nat) = CHR ''D''"
  "char_of (69::nat) = CHR ''E''"
  "char_of (70::nat) = CHR ''F''"
  "char_of (71::nat) = CHR ''G''"
  "char_of (72::nat) = CHR ''H''"
  "char_of (73::nat) = CHR ''I''"
  "char_of (74::nat) = CHR ''J''"
  "char_of (75::nat) = CHR ''K''"
  "char_of (76::nat) = CHR ''L''"
  "char_of (77::nat) = CHR ''M''"
  "char_of (78::nat) = CHR ''N''"
  "char_of (79::nat) = CHR ''O''"
  "char_of (80::nat) = CHR ''P''"
  "char_of (81::nat) = CHR ''Q''"
  "char_of (82::nat) = CHR ''R''"
  "char_of (83::nat) = CHR ''S''"
  "char_of (84::nat) = CHR ''T''"
  "char_of (85::nat) = CHR ''U''"
  "char_of (86::nat) = CHR ''V''"
  "char_of (87::nat) = CHR ''W''"
  "char_of (88::nat) = CHR ''X''"
  "char_of (89::nat) = CHR ''Y''"
  "char_of (90::nat) = CHR ''Z''"
  "char_of (91::nat) = CHR ''[''"
  "char_of (92::nat) = CHR 0x5C"
  "char_of (93::nat) = CHR '']''"
  "char_of (94::nat) = CHR ''^''"
  "char_of (95::nat) = CHR ''_''"
  "char_of (96::nat) = CHR 0x60"
  "char_of (97::nat) = CHR ''a''"
  "char_of (98::nat) = CHR ''b''"
  "char_of (99::nat) = CHR ''c''"
  "char_of (100::nat) = CHR ''d''"
  "char_of (101::nat) = CHR ''e''"
  "char_of (102::nat) = CHR ''f''"
  "char_of (103::nat) = CHR ''g''"
  "char_of (104::nat) = CHR ''h''"
  "char_of (105::nat) = CHR ''i''"
  "char_of (106::nat) = CHR ''j''"
  "char_of (107::nat) = CHR ''k''"
  "char_of (108::nat) = CHR ''l''"
  "char_of (109::nat) = CHR ''m''"
  "char_of (110::nat) = CHR ''n''"
  "char_of (111::nat) = CHR ''o''"
  "char_of (112::nat) = CHR ''p''"
  "char_of (113::nat) = CHR ''q''"
  "char_of (114::nat) = CHR ''r''"
  "char_of (115::nat) = CHR ''s''"
  "char_of (116::nat) = CHR ''t''"
  "char_of (117::nat) = CHR ''u''"
  "char_of (118::nat) = CHR ''v''"
  "char_of (119::nat) = CHR ''w''"
  "char_of (120::nat) = CHR ''x''"
  "char_of (121::nat) = CHR ''y''"
  "char_of (122::nat) = CHR ''z''"
  "char_of (123::nat) = CHR ''{''"
  "char_of (124::nat) = CHR ''|''"
  "char_of (125::nat) = CHR ''}''"
  "char_of (126::nat) = CHR ''~''"
  by (simp_all add: char_of_def bit_numeral_simps bit_Suc_0_iff)

lemmas eval_simps =
  isWordChar_def in_range_def charCode_table char_of_table isSpace_def lowerChar_def
  upperAscii_def lowerAscii_def toLowerCase_def trim_def split_str_def substring_def
  class_mem_def exec_from_def test_def replace_all_def exec_all.simps replace_from.simps
  bracketsAndQuotes_def andWord_def parseUserStoryIds_def
  componentPatterns_def identPattern_def typeWord_def upperClass_def wordClass_def
  quoteClass_def fallbackPattern_def namePattern_def
  typeMap_def objectPrototype_def typeMap_get_def actionMap_def excludeWords_def
  defaultModule_def defaultAction_def fallbackNames_def
  nameAndType_def validName_def accepted_def processMatch_def processFallback_def
  toChange_def unknownComponent_def patternPass_def fallbackPass_def
  parseChangesToCopadoFormat_def Let_def

section \<open>Substrings and the first keyword of a table\<close>

lemma startsWith_iff: "startsWith s k \<longleftrightarrow> (\<exists>post. s = k @ post)"
  by (induction s k rule: startsWith.induct) auto

lemma includes_str_iff: "includes_str s k \<longleftrightarrow> (\<exists>pre post. s = pre @ k @ post)"
proof (induction s)
  case Nil
  then show ?case by auto
next
  case (Cons c cs)
  show ?case
  proof
    assume "includes_str (c # cs) k"
    then consider "startsWith (c # cs) k" | "includes_str cs k" by auto
    then show "\<exists>pre post. c # cs = pre @ k @ post"
    proof cases
      case 1
      then obtain post where "c # cs = k @ post" using startsWith_iff by blast
      then have "c # cs = [] @ k @ post" by simp
      then show ?thesis by blast
    next
      case 2
      with Cons.IH obtain pre post where "cs = pre @ k @ post" by blast
      then have "c # cs = (c # pre) @ k @ post" by simp
      then show ?thesis by blast
    qed
  next
    assume "\<exists>pre post. c # cs = pre @ k @ post"
    then obtain pre post where e: "c # cs = pre @ k @ post" by blast
    show "includes_str (c # cs) k"
    proof (cases pre)
      case Nil
      with e have "startsWith (c # cs) k" using startsWith_iff by auto
      then show ?thesis by simp
    next
      case (Cons p ps)
      with e have "cs = ps @ k @ post" by simp
      with Cons.IH have "includes_str cs k" by blast
      then show ?thesis by simp
    qed
  qed
qed

lemma firstIncluded_at:
  "j < length tbl \<Longrightarrow> includes_str s (fst (tbl ! j)) \<Longrightarrow>
   \<forall>i<j. \<not> includes_str s (fst (tbl ! i)) \<Longrightarrow> firstIncluded tbl s d = snd (tbl ! j)"
proof (induction tbl arbitrary: j)
  case Nil
  then show ?case by simp
next
  case (Cons kv tbl)
  obtain k v where kv: "kv = (k, v)" by (cases kv)
  show ?case
  proof (cases j)
    case 0
    with Cons.prems kv show ?thesis by simp
  next
    case (Suc j')
    from Cons.prems(3) Suc have "\<not> includes_str s (fst ((kv # tbl) ! 0))" by blast
    then have nk: "\<not> includes_str s k" using kv by simp
    have "\<forall>i<j'. \<not> includes_str s (fst (tbl ! i))"
    proof (intro allI impI)
      fix i assume "i < j'"
      then have "Suc i < j" using Suc by simp
      with Cons.prems(3) have "\<not> includes_str s (fst ((kv # tbl) ! Suc i))" by blast
      then show "\<not> includes_str s (fst (tbl ! i))" by simp
    qed
    moreover from Cons.prems Suc have "j' < length tbl" "includes_str s (fst (tbl ! j'))" by auto
    ultimately have "firstIncluded tbl s d = snd (tbl ! j')" using Cons.IH by blast
    with nk kv Suc show ?thesis by simp
  qed
qed

lemma firstIncluded_none:
  "\<forall>i<length tbl. \<not> includes_str s (fst (tbl ! i)) \<Longrightarrow> firstIncluded tbl s d = d"
proof (induction tbl)
  case Nil
  then show ?case by simp
next
  case (Cons kv tbl)
  obtain k v where kv: "kv = (k, v)" by (cases kv)
  from Cons.prems have "\<not> includes_str s (fst ((kv # tbl) ! 0))" by blast
  then have nk: "\<not> includes_str s k" using kv by simp
  have "\<forall>i<length tbl. \<not> includes_str s (fst (tbl ! i))"
  proof (intro allI impI)
    fix i assume "i < length tbl"
    then have "Suc i < length (kv # tbl)" by simp
    with Cons.prems have "\<not> includes_str s (fst ((kv # tbl) ! Suc i))" by blast
    then show "\<not> includes_str s (fst (tbl ! i))" by simp
  qed
  with Cons.IH have "firstIncluded tbl s d = d" by blast
  with nk kv show ?case by simp
qed

lemma parse_actions:
  "parseChangesToCopadoFormat d = Some changes \<Longrightarrow> c \<in> set changes \<Longrightarrow> ch_a c = defaultAction d"
  by (auto simp: parseChangesToCopadoFormat_def toChange_def unknownComponent_def
           split: option.splits if_splits)

lemma parse_nonempty: "parseChangesToCopadoFormat d = Some changes \<Longrightarrow> changes \<noteq> []"
  by (auto simp: parseChangesToCopadoFormat_def split: option.splits if_splits)

section \<open>Letter case\<close>

text \<open>\<open>s\<close> is the word \<open>w\<close> up to the case of its letters.\<close>

definition anyCase :: "string \<Rightarrow> string \<Rightarrow> bool" where
  "anyCase s w = list_all2 (\<lambda>c d. c = d \<or> c = upperAscii d \<or> c = lowerAscii d) s w"

lemma charCode_less: "charCode c < 256"
  by (simp add: charCode_def)

lemma char_of_charCode: "char_of (charCode c) = c"
  by (simp add: charCode_def)

lemma charCode_char_of: "n < 256 \<Longrightarrow> charCode (char_of n) = n"
  by (simp add: charCode_def)

lemma lowerChar_upperAscii: "lowerChar (upperAscii d) = lowerChar d"
proof (cases "in_range CHR ''a'' CHR ''z'' d")
  case True
  then have r: "97 \<le> charCode d" "charCode d \<le> 122"
    by (simp_all add: in_range_def charCode_table)
  then have u: "charCode (char_of (charCode d - 32)) = charCode d - 32"
    by (simp add: charCode_char_of)
  have "65 \<le> charCode d - 32" "charCode d - 32 \<le> 90" using r by arith+
  then have "lowerChar (char_of (charCode d - 32)) = char_of (charCode d - 32 + 32)"
    using u by (simp add: lowerChar_def in_range_def charCode_table)
  also have "\<dots> = d" using r by (simp add: char_of_charCode)
  also have "d = lowerChar d" using r by (simp add: lowerChar_def in_range_def charCode_table)
  finally show ?thesis using True by (simp add: upperAscii_def)
next
  case False
  then show ?thesis by (simp add: upperAscii_def)
qed

lemma lowerChar_lowerAscii: "lowerChar (lowerAscii d) = lowerChar d"
proof (cases "in_range CHR ''A'' CHR ''Z'' d")
  case True
  then have r: "65 \<le> charCode d" "charCode d \<le> 90"
    by (simp_all add: in_range_def charCode_table)
  then have u: "charCode (char_of (charCode d + 32)) = charCode d + 32"
    by (simp add: charCode_char_of)
  have "\<not> charCode d + 32 \<le> 90" "\<not> 192 \<le> charCode d + 32" using r by arith+
  then have "lowerChar (char_of (charCode d + 32)) = char_of (charCode d + 32)"
    using u by (simp add: lowerChar_def in_range_def charCode_table)
  also have "\<dots> = lowerChar d" using r by (simp add: lowerChar_def in_range_def charCode_table)
  finally show ?thesis using True by (simp add: lowerAscii_def)
next
  case False
  then show ?thesis by (simp add: lowerAscii_def)
qed

lemma anyCase_toLowerCase: "anyCase s w \<Longrightarrow> toLowerCase s = toLowerCase w"
  unfolding anyCase_def toLowerCase_def
  by (induction s w rule: list_all2_induct)
     (auto simp: lowerChar_upperAscii lowerChar_lowerAscii)

section \<open>Replacing by a scan of the text\<close>

text \<open>
  Replacement without a pattern engine.  \<open>mt r\<close> says whether a match starts at the head
  of the text \<open>r\<close> and, when one does, gives the text after the match.  The scan goes
  from left to right: a match is replaced and the scan goes on after it, any other
  character is kept.
\<close>

function scanReplace :: "(string \<Rightarrow> string option) \<Rightarrow> string \<Rightarrow> string \<Rightarrow> string" where
  "scanReplace mt rep [] = []"
| "scanReplace mt rep (x # xs) =
     (case mt (x # xs) of
        None \<Rightarrow> x # scanReplace mt rep xs
      | Some r' \<Rightarrow>
          if length r' < length (x # xs) then rep @ scanReplace mt rep r'
          else x # scanReplace mt rep xs)"
  by pat_completeness auto
termination
  by (relation "measure (\<lambda>(mt, rep, r). length r)") auto

lemma greedy_concat:
  assumes "\<And>l' r'. r' \<noteq> [] \<Longrightarrow> p (hd r') \<Longrightarrow> g (l', r') = []"
  shows "concat (map g (greedy p l r)) = g (l @ takeWhile p r, dropWhile p r)"
proof (induction r arbitrary: l)
  case Nil
  show ?case by simp
next
  case (Cons c cs)
  show ?case
  proof (cases "p c")
    case True
    then have "g (l, c # cs) = []" using assms by simp
    with True Cons.IH[of "l @ [c]"] show ?thesis by simp
  next
    case False
    then show ?thesis by simp
  qed
qed

lemma concat_map_filter:
  "concat (map f (filter Q xs)) = concat (map (\<lambda>x. if Q x then f x else []) xs)"
  by (induction xs) auto

lemma rx_rep_cat:
  assumes "\<And>l' r' c'. r' \<noteq> [] \<Longrightarrow> class_mem ic cls (hd r') \<Longrightarrow> rx ic e2 (l', r') c' = []"
  shows "rx ic (Cat (Rep lo cls) e2) (l, r) c =
     (if lo \<le> length (takeWhile (class_mem ic cls) r)
      then rx ic e2 (l @ takeWhile (class_mem ic cls) r, dropWhile (class_mem ic cls) r) c
      else [])"
proof -
  let ?Q = "\<lambda>p. length l + lo \<le> length (fst p)"
  let ?g = "\<lambda>p. if ?Q p then rx ic e2 p c else []"
  have "rx ic (Cat (Rep lo cls) e2) (l, r) c =
      concat (map (\<lambda>p. rx ic e2 p c) (filter ?Q (greedy (class_mem ic cls) l r)))"
    by (simp add: comp_def case_prod_unfold)
  also have "\<dots> = concat (map ?g (greedy (class_mem ic cls) l r))"
    by (rule concat_map_filter)
  finally have 1: "rx ic (Cat (Rep lo cls) e2) (l, r) c = concat (map ?g (greedy (class_mem ic cls) l r))" .
  have "concat (map ?g (greedy (class_mem ic cls) l r)) =
      ?g (l @ takeWhile (class_mem ic cls) r, dropWhile (class_mem ic cls) r)"
    by (rule greedy_concat) (use assms in auto)
  with 1 show ?thesis by simp
qed

lemma greedy_Cons: "\<exists>t. greedy p l r = (l @ takeWhile p r, dropWhile p r) # t"
proof (induction r arbitrary: l)
  case Nil
  show ?case by simp
next
  case (Cons c cs)
  show ?case
  proof (cases "p c")
    case True
    from Cons.IH[of "l @ [c]"] obtain t where
      "greedy p (l @ [c]) cs = ((l @ [c]) @ takeWhile p cs, dropWhile p cs) # t" by blast
    with True show ?thesis by simp
  next
    case False
    then show ?thesis by simp
  qed
qed

lemma greedy_length:
  "(l', r') \<in> set (greedy p l r) \<Longrightarrow> length l' \<le> length l + length (takeWhile p r)"
proof (induction r arbitrary: l)
  case Nil
  then show ?case by simp
next
  case (Cons c cs)
  show ?case
  proof (cases "p c")
    case True
    with Cons.prems consider "(l', r') \<in> set (greedy p (l @ [c]) cs)" | "(l', r') = (l, c # cs)"
      by auto
    then show ?thesis
    proof cases
      case 1
      from Cons.IH[OF 1] True show ?thesis by simp
    next
      case 2
      then show ?thesis by simp
    qed
  next
    case False
    with Cons.prems show ?thesis by simp
  qed
qed

lemma rx_rep_nil:
  assumes "length (takeWhile (class_mem ic cls) r) < lo"
  shows "rx ic (Rep lo cls) (l, r) c = []"
proof -
  have "filter (\<lambda>(l', r'). length l + lo \<le> length l') (greedy (class_mem ic cls) l r) = []"
    unfolding filter_empty_conv using greedy_length[of _ _ "class_mem ic cls" l r] assms
    by fastforce
  then show ?thesis by simp
qed

lemma rx_rep_cons:
  assumes "lo \<le> length (takeWhile (class_mem ic cls) r)"
  shows "\<exists>t. rx ic (Rep lo cls) (l, r) c =
           ((l @ takeWhile (class_mem ic cls) r, dropWhile (class_mem ic cls) r), c) # t"
proof -
  obtain t where "greedy (class_mem ic cls) l r =
      (l @ takeWhile (class_mem ic cls) r, dropWhile (class_mem ic cls) r) # t"
    using greedy_Cons by blast
  with assms show ?thesis by simp
qed

text \<open>
  When \<open>mt\<close> tells where the pattern matches and where its first match ends, replacing
  with the pattern is the scan with \<open>mt\<close>.
\<close>

lemma search_scan:
  assumes none: "\<And>l r. mt r = None \<Longrightarrow> rx ic e (l, r) Map.empty = []"
    and some: "\<And>l r r'. mt r = Some r' \<Longrightarrow> \<exists>l' c' t. rx ic e (l, r) Map.empty = ((l', r'), c') # t"
    and nn: "nonnull e"
  shows "(search ic e l r = None \<longrightarrow> scanReplace mt rep r = r)
       \<and> (\<forall>m. search ic e l r = Some m \<longrightarrow>
             length l \<le> index m \<and> index m < lastIndex m \<and> lastIndex m \<le> length (l @ r)
             \<and> scanReplace mt rep r =
                 take (index m - length l) r @ rep @ scanReplace mt rep (drop (lastIndex m - length l) r))"
proof (induction r arbitrary: l)
  case Nil
  show ?case
  proof (cases "mt []")
    case None
    from none[OF None] show ?thesis by simp
  next
    case (Some r')
    from some[OF Some] obtain l' c' t where h: "rx ic e (l, []) Map.empty = ((l', r'), c') # t"
      by blast
    then have "((l', r'), c') \<in> set (rx ic e (l, []) Map.empty)" by simp
    from rx_advance[OF nn this] rx_span[OF this] have False by (cases l' rule: rev_cases) auto
    then show ?thesis ..
  qed
next
  case (Cons x xs)
  show ?case
  proof (cases "mt (x # xs)")
    case None
    from none[OF None] have s: "search ic e l (x # xs) = search ic e (l @ [x]) xs" by simp
    have sc: "scanReplace mt rep (x # xs) = x # scanReplace mt rep xs" using None by simp
    show ?thesis
    proof (intro conjI allI impI)
      assume "search ic e l (x # xs) = None"
      with s Cons.IH[of "l @ [x]"] sc show "scanReplace mt rep (x # xs) = x # xs" by simp
    next
      fix m assume "search ic e l (x # xs) = Some m"
      with s have m: "search ic e (l @ [x]) xs = Some m" by simp
      with Cons.IH[of "l @ [x]"] have
        b: "length (l @ [x]) \<le> index m" "index m < lastIndex m" "lastIndex m \<le> length ((l @ [x]) @ xs)"
        and r: "scanReplace mt rep xs =
                 take (index m - length (l @ [x])) xs @ rep @
                 scanReplace mt rep (drop (lastIndex m - length (l @ [x])) xs)"
        by blast+
      from b have 1: "index m - length l = Suc (index m - length (l @ [x]))"
        and 2: "lastIndex m - length l = Suc (lastIndex m - length (l @ [x]))" by auto
      show "length l \<le> index m" using b by simp
      show "index m < lastIndex m" using b by simp
      show "lastIndex m \<le> length (l @ x # xs)" using b by simp
      show "scanReplace mt rep (x # xs) =
                 take (index m - length l) (x # xs) @ rep @
                 scanReplace mt rep (drop (lastIndex m - length l) (x # xs))"
        unfolding 1 2 sc using r by simp
    qed
  next
    case (Some r')
    from some[OF Some] obtain l' c' t where h: "rx ic e (l, x # xs) Map.empty = ((l', r'), c') # t"
      by blast
    then have mem: "((l', r'), c') \<in> set (rx ic e (l, x # xs) Map.empty)" by simp
    from rx_advance[OF nn mem] have adv: "length l < length l'" by simp
    from rx_span[OF mem] have sp: "l' @ r' = l @ x # xs" by simp
    then have len: "length l' + length r' = length l + Suc (length xs)"
      by (metis length_append length_Cons)
    with adv have lt: "length r' < length (x # xs)" by simp
    have sc: "scanReplace mt rep (x # xs) = rep @ scanReplace mt rep r'" using Some lt by simp
    have r': "r' = drop (length l' - length l) (x # xs)"
    proof -
      have "drop (length l') (l' @ r') = r'" by simp
      with sp have "r' = drop (length l') (l @ x # xs)" by simp
      also have "\<dots> = drop (length l' - length l) (x # xs)" using adv by simp
      finally show ?thesis .
    qed
    have s: "search ic e l (x # xs) = Some \<lparr>index = length l, lastIndex = length l', groups = c'\<rparr>"
      using h by simp
    show ?thesis
    proof (intro conjI allI impI)
      assume "search ic e l (x # xs) = None"
      with s show "scanReplace mt rep (x # xs) = x # xs" by simp
    next
      fix m assume "search ic e l (x # xs) = Some m"
      with s have m: "m = \<lparr>index = length l, lastIndex = length l', groups = c'\<rparr>" by simp
      show "length l \<le> index m" using m by simp
      show "index m < lastIndex m" using m adv by simp
      show "lastIndex m \<le> length (l @ x # xs)" using m len by simp
      show "scanReplace mt rep (x # xs) =
                 take (index m - length l) (x # xs) @ rep @
                 scanReplace mt rep (drop (lastIndex m - length l) (x # xs))"
        using m sc r' by simp
    qed
  qed
qed

lemma replace_from_scan:
  assumes none: "\<And>l r. mt r = None \<Longrightarrow> rx ic e (l, r) Map.empty = []"
    and some: "\<And>l r r'. mt r = Some r' \<Longrightarrow> \<exists>l' c' t. rx ic e (l, r) Map.empty = ((l', r'), c') # t"
    and nn: "nonnull e"
  shows "i \<le> length s \<Longrightarrow> replace_from ic e rep s i i = scanReplace mt rep (drop i s)"
proof (induction "length s - i" arbitrary: i rule: less_induct)
  case less
  note ss = search_scan[OF none some nn, where l = "take i s" and r = "drop i s" and rep = rep]
  show ?case
  proof (cases "exec_from ic e s i")
    case None
    with less.prems have "search ic e (take i s) (drop i s) = None" by (simp add: exec_from_def)
    with ss have "scanReplace mt rep (drop i s) = drop i s" by blast
    with None show ?thesis by (subst replace_from.simps) simp
  next
    case (Some m)
    with less.prems have sm: "search ic e (take i s) (drop i s) = Some m"
      by (simp add: exec_from_def)
    with ss less.prems have
      b: "i \<le> index m" "index m < lastIndex m" "lastIndex m \<le> length s"
      and r: "scanReplace mt rep (drop i s) =
                 take (index m - i) (drop i s) @ rep @
                 scanReplace mt rep (drop (lastIndex m - i) (drop i s))"
      by auto
    from b have d: "drop (lastIndex m - i) (drop i s) = drop (lastIndex m) s" by simp
    have ih: "replace_from ic e rep s (lastIndex m) (lastIndex m) =
        scanReplace mt rep (drop (lastIndex m) s)"
      using less.hyps[of "lastIndex m"] b by simp
    have "replace_from ic e rep s i i =
        substring s i (index m) @ rep @ replace_from ic e rep s (lastIndex m) (lastIndex m)"
      using Some b by (subst replace_from.simps) simp
    with ih r d show ?thesis by (simp add: substring_def)
  qed
qed

lemma replace_all_scan:
  assumes "\<And>l r. mt r = None \<Longrightarrow> rx ic e (l, r) Map.empty = []"
    and "\<And>l r r'. mt r = Some r' \<Longrightarrow> \<exists>l' c' t. rx ic e (l, r) Map.empty = ((l', r'), c') # t"
    and "nonnull e"
  shows "replace_all ic e rep s = scanReplace mt rep s"
  unfolding replace_all_def using replace_from_scan[OF assms, where i = 0 and s = s and rep = rep] by simp

section \<open>Letters of a pattern under the flag \<open>i\<close>\<close>

lemma charCode_inject: "charCode c = charCode d \<Longrightarrow> c = d"
  by (simp add: charCode_def)

lemma char_of_eq_char: "(n::nat) < 256 \<Longrightarrow> char_of n = c \<longleftrightarrow> n = charCode c"
  using charCode_char_of[of n] char_of_charCode[of c] by auto

lemma lowerChar_eq_small:
  assumes "in_range CHR ''a'' CHR ''z'' p"
  shows "lowerChar c = p \<longleftrightarrow> c = p \<or> c = upperAscii p"
proof -
  from assms have q: "97 \<le> charCode p" "charCode p \<le> 122"
    by (simp_all add: in_range_def charCode_table)
  have up: "upperAscii p = char_of (charCode p - 32)" using assms by (simp add: upperAscii_def)
  have cu: "c = upperAscii p \<longleftrightarrow> charCode c = charCode p - 32"
  proof -
    have "charCode p - 32 < 256" using q by arith
    from char_of_eq_char[OF this, of c] up show ?thesis by auto
  qed
  have cp: "c = p \<longleftrightarrow> charCode c = charCode p" using charCode_inject by auto
  show ?thesis
  proof (cases "65 \<le> charCode c \<and> charCode c \<le> 90")
    case True
    then have l: "lowerChar c = char_of (charCode c + 32)"
      by (simp add: lowerChar_def in_range_def charCode_table)
    have "charCode c + 32 < 256" using True by arith
    from char_of_eq_char[OF this, of p] have "lowerChar c = p \<longleftrightarrow> charCode c + 32 = charCode p"
      using l by simp
    with cu cp True q show ?thesis by auto
  next
    case False
    note nu = this
    show ?thesis
    proof (cases "192 \<le> charCode c \<and> charCode c \<le> 222 \<and> charCode c \<noteq> 215")
      case True
      then have l: "lowerChar c = char_of (charCode c + 32)"
        by (simp add: lowerChar_def in_range_def charCode_table)
      have "charCode c + 32 < 256" using True by arith
      from char_of_eq_char[OF this, of p] have "lowerChar c = p \<longleftrightarrow> charCode c + 32 = charCode p"
        using l by simp
      with cu cp True q show ?thesis by auto
    next
      case False
      with nu have l: "lowerChar c = c" by (auto simp: lowerChar_def in_range_def charCode_table)
      with cu cp nu q show ?thesis by auto
    qed
  qed
qed

lemma item_mem_small:
  assumes "in_range CHR ''a'' CHR ''z'' p"
  shows "item_mem True (One p) c \<longleftrightarrow> lowerChar c = p"
proof -
  from assms have q: "97 \<le> charCode p" "charCode p \<le> 122"
    by (simp_all add: in_range_def charCode_table)
  have up: "upperAscii p = char_of (charCode p - 32)" using assms by (simp add: upperAscii_def)
  have lt: "charCode p - 32 < 256" using q by arith
  have cu: "c = upperAscii p \<longleftrightarrow> charCode c = charCode p - 32"
    using char_of_eq_char[OF lt, of c] up by auto
  have cp: "c = p \<longleftrightarrow> charCode c = charCode p" using charCode_inject by auto
  have "upperAscii c = upperAscii p \<longleftrightarrow> c = p \<or> c = upperAscii p"
  proof (cases "97 \<le> charCode c \<and> charCode c \<le> 122")
    case True
    then have u: "upperAscii c = char_of (charCode c - 32)"
      by (simp add: upperAscii_def in_range_def charCode_table)
    have "charCode c - 32 < 256" using True by arith
    from char_of_eq_char[OF this, of "upperAscii p"]
    have "upperAscii c = upperAscii p \<longleftrightarrow> charCode c - 32 = charCode (upperAscii p)"
      using u by simp
    also have "charCode (upperAscii p) = charCode p - 32"
      using up lt by (simp add: charCode_char_of)
    finally show ?thesis using cu cp True q by auto
  next
    case False
    then have "upperAscii c = c" by (auto simp: upperAscii_def in_range_def charCode_table)
    with cu cp False q show ?thesis by auto
  qed
  with lowerChar_eq_small[OF assms, of c] show ?thesis by auto
qed

lemma lit_match_small:
  "list_all (in_range CHR ''a'' CHR ''z'') w \<Longrightarrow>
   lit_match True w r \<longleftrightarrow> toLowerCase (take (length w) r) = w"
proof (induction w arbitrary: r)
  case Nil
  show ?case by (simp add: toLowerCase_def)
next
  case (Cons p ps)
  then have p: "in_range CHR ''a'' CHR ''z'' p" and ps: "list_all (in_range CHR ''a'' CHR ''z'') ps"
    by simp_all
  show ?case
  proof (cases r)
    case Nil
    then show ?thesis by (simp add: toLowerCase_def)
  next
    case (Cons c cs)
    have "lit_match True (p # ps) (c # cs) \<longleftrightarrow> lowerChar c = p \<and> lit_match True ps cs"
      using item_mem_small[OF p, of c] by simp
    with Cons.IH[OF ps, of cs] Cons show ?thesis by (simp add: toLowerCase_def)
  qed
qed

section \<open>The identifier list parser without a pattern engine\<close>

definition isBracketOrQuote :: "char \<Rightarrow> bool" where
  "isBracketOrQuote c = (c \<in> {CHR ''['', CHR '']'', CHR 0x22, CHR 0x27})"

definition bracketMatch :: "string \<Rightarrow> string option" where
  "bracketMatch r = (case r of [] \<Rightarrow> None | x # xs \<Rightarrow> if isBracketOrQuote x then Some xs else None)"

text \<open>
  A match of the word starts at the head of \<open>r\<close> when \<open>r\<close> begins with a run of one or
  more white-space characters, the three letters in any case, and again a run of one or
  more white-space characters.  Both runs go as far as they can, and the match takes
  them whole.
\<close>

definition andMatch :: "string \<Rightarrow> string option" where
  "andMatch r =
     (let r1 = dropWhile isSpace r; r2 = drop 3 r1 in
      if takeWhile isSpace r \<noteq> [] \<and> toLowerCase (take 3 r1) = ''and'' \<and> takeWhile isSpace r2 \<noteq> []
      then Some (dropWhile isSpace r2) else None)"

definition referenceParse :: "string \<Rightarrow> string list" where
  "referenceParse s =
     filter (\<lambda>piece. piece \<noteq> [])
       (map trim
         (split_str CHR '',''
           (scanReplace andMatch '',''
             (filter (\<lambda>c. \<not> isBracketOrQuote c) s))))"

text \<open>
  The reading of the specification word by word: an occurrence of the three letters, in
  any case, with a white-space character before it and one after it, becomes a comma;
  the white space stays, to be trimmed later.  \<open>sp\<close> says that the character before the
  head is white space.
\<close>

fun literalAnd :: "bool \<Rightarrow> string \<Rightarrow> string" where
  "literalAnd sp (a # n # d # c # rest) =
     (if sp \<and> toLowerCase [a, n, d] = ''and'' \<and> isSpace c
      then CHR '','' # literalAnd False (c # rest)
      else a # literalAnd (isSpace a) (n # d # c # rest))"
| "literalAnd sp r = r"

definition literalParse :: "string \<Rightarrow> string list" where
  "literalParse s =
     filter (\<lambda>piece. piece \<noteq> [])
       (map trim
         (split_str CHR '',''
           (literalAnd False (filter (\<lambda>c. \<not> isBracketOrQuote c) s))))"

lemma scan_brackets: "scanReplace bracketMatch [] s = filter (\<lambda>c. \<not> isBracketOrQuote c) s"
  by (induction s) (auto simp: bracketMatch_def)

lemma brackets_replace:
  "replace_all False bracketsAndQuotes [] s = filter (\<lambda>c. \<not> isBracketOrQuote c) s"
proof -
  have m: "class_mem False [One CHR ''['', One CHR '']'', One CHR 0x22, One CHR 0x27] x
        = isBracketOrQuote x" for x
    by (auto simp: class_mem_def isBracketOrQuote_def)
  have "replace_all False bracketsAndQuotes [] s = scanReplace bracketMatch [] s"
  proof (rule replace_all_scan)
    fix l r assume "bracketMatch r = None"
    then show "rx False bracketsAndQuotes (l, r) Map.empty = []"
      by (auto simp: bracketMatch_def bracketsAndQuotes_def m split: list.splits if_splits)
  next
    fix l r r' assume "bracketMatch r = Some r'"
    then show "\<exists>l' c' t. rx False bracketsAndQuotes (l, r) Map.empty = ((l', r'), c') # t"
      by (auto simp: bracketMatch_def bracketsAndQuotes_def m split: list.splits if_splits)
  next
    show "nonnull bracketsAndQuotes" by (simp add: bracketsAndQuotes_def)
  qed
  with scan_brackets show ?thesis by simp
qed

lemma class_mem_Spc: "class_mem ic [Spc] = isSpace"
  by (rule ext) (simp add: class_mem_def)

lemma upperAscii_a: "upperAscii CHR ''a'' = CHR ''A''"
  by (simp add: upperAscii_def in_range_def charCode_table char_of_table)

lemma space_not_a: "isSpace c \<Longrightarrow> lowerChar c \<noteq> CHR ''a''"
proof -
  assume s: "isSpace c"
  have "in_range CHR ''a'' CHR ''z'' CHR ''a''" by (simp add: in_range_def charCode_table)
  from lowerChar_eq_small[OF this, of c]
  have "lowerChar c = CHR ''a'' \<longleftrightarrow> c = CHR ''a'' \<or> c = CHR ''A''" by (simp add: upperAscii_a)
  moreover have "c \<noteq> CHR ''a''" "c \<noteq> CHR ''A''" using s by (auto simp: isSpace_def charCode_table)
  ultimately show ?thesis by simp
qed

lemma and_small: "list_all (in_range CHR ''a'' CHR ''z'') ''and''"
  by (simp add: in_range_def charCode_table)

lemma lit_match_and: "lit_match True ''and'' r \<longleftrightarrow> toLowerCase (take 3 r) = ''and''"
  using lit_match_small[OF and_small, of r] by (simp add: numeral_3_eq_3)

lemma rx_and_tail:
  "rx True (Cat (Str ''and'') (Rep 1 [Spc])) (l, r) c =
     (if toLowerCase (take 3 r) = ''and'' then rx True (Rep 1 [Spc]) (l @ take 3 r, drop 3 r) c else [])"
  using lit_match_and[of r] by (simp add: numeral_3_eq_3)

lemma rx_and_tail_space:
  assumes "r \<noteq> []" and "isSpace (hd r)"
  shows "rx True (Cat (Str ''and'') (Rep 1 [Spc])) (l, r) c = []"
proof -
  from assms obtain x xs where r: "r = x # xs" and x: "isSpace x" by (cases r) auto
  from space_not_a[OF x] have "toLowerCase (take 3 r) \<noteq> ''and''"
    by (auto simp: r toLowerCase_def)
  then show ?thesis by (simp only: rx_and_tail if_False)
qed

lemma rx_andWord:
  "rx True andWord (l, r) c =
     (if takeWhile isSpace r \<noteq> [] \<and> toLowerCase (take 3 (dropWhile isSpace r)) = ''and''
      then rx True (Rep 1 [Spc])
             (l @ takeWhile isSpace r @ take 3 (dropWhile isSpace r), drop 3 (dropWhile isSpace r)) c
      else [])"
proof -
  have "rx True (Cat (Rep 1 [Spc]) (Cat (Str ''and'') (Rep 1 [Spc]))) (l, r) c =
     (if 1 \<le> length (takeWhile (class_mem True [Spc]) r)
      then rx True (Cat (Str ''and'') (Rep 1 [Spc]))
             (l @ takeWhile (class_mem True [Spc]) r, dropWhile (class_mem True [Spc]) r) c
      else [])"
    by (rule rx_rep_cat, rule rx_and_tail_space) (simp_all add: class_mem_Spc)
  moreover have "1 \<le> length (takeWhile isSpace r) \<longleftrightarrow> takeWhile isSpace r \<noteq> []"
    by (cases "takeWhile isSpace r") auto
  ultimately show ?thesis
    unfolding andWord_def class_mem_Spc rx_and_tail by (auto simp del: rx.simps)
qed

lemma and_replace: "replace_all True andWord '','' s = scanReplace andMatch '','' s"
proof (rule replace_all_scan)
  fix l r assume n: "andMatch r = None"
  show "rx True andWord (l, r) Map.empty = []"
  proof (cases "takeWhile isSpace r \<noteq> [] \<and> toLowerCase (take 3 (dropWhile isSpace r)) = ''and''")
    case True
    with n have "takeWhile isSpace (drop 3 (dropWhile isSpace r)) = []"
      by (simp add: andMatch_def Let_def split: if_splits)
    then have "length (takeWhile (class_mem True [Spc]) (drop 3 (dropWhile isSpace r))) < 1"
      by (simp add: class_mem_Spc)
    from rx_rep_nil[OF this] True show ?thesis by (simp only: rx_andWord) simp
  next
    case False
    then show ?thesis by (simp only: rx_andWord if_False)
  qed
next
  fix l r r' assume s: "andMatch r = Some r'"
  then have a: "takeWhile isSpace r \<noteq> [] \<and> toLowerCase (take 3 (dropWhile isSpace r)) = ''and''"
    and b: "takeWhile isSpace (drop 3 (dropWhile isSpace r)) \<noteq> []"
    and r': "r' = dropWhile isSpace (drop 3 (dropWhile isSpace r))"
    by (auto simp: andMatch_def Let_def split: if_splits)
  from b have "1 \<le> length (takeWhile (class_mem True [Spc]) (drop 3 (dropWhile isSpace r)))"
    by (cases "takeWhile isSpace (drop 3 (dropWhile isSpace r))") (auto simp: class_mem_Spc)
  from rx_rep_cons[OF this, of "l @ takeWhile isSpace r @ take 3 (dropWhile isSpace r)" Map.empty]
  obtain t where "rx True (Rep 1 [Spc])
      (l @ takeWhile isSpace r @ take 3 (dropWhile isSpace r), drop 3 (dropWhile isSpace r)) Map.empty
    = (((l @ takeWhile isSpace r @ take 3 (dropWhile isSpace r)) @
          takeWhile isSpace (drop 3 (dropWhile isSpace r)), r'), Map.empty) # t"
    unfolding class_mem_Spc r' by blast
  with a show "\<exists>l' c' t. rx True andWord (l, r) Map.empty = ((l', r'), c') # t"
    by (simp only: rx_andWord) simp
next
  show "nonnull andWord" by (simp add: andWord_def)
qed

lemma parse_reference: "parseUserStoryIds s = referenceParse s"
proof -
  have "(\<lambda>id. 0 < length id) = (\<lambda>piece :: string. piece \<noteq> [])" by auto
  then show ?thesis
    by (simp add: parseUserStoryIds_def referenceParse_def brackets_replace and_replace)
qed

section \<open>Facts about trimming, splitting and joining\<close>

lemma dropWhile_id: "xs = [] \<or> \<not> P (hd xs) \<Longrightarrow> dropWhile P xs = xs"
  by (cases xs) auto

lemma dropWhile_hd: "dropWhile P xs = [] \<or> \<not> P (hd (dropWhile P xs))"
  using hd_dropWhile by blast

lemma trim_ends: "trim s = [] \<or> (\<not> isSpace (hd (trim s)) \<and> \<not> isSpace (last (trim s)))"
proof (cases "trim s = []")
  case True
  then show ?thesis by simp
next
  case False
  define t where "t = dropWhile isSpace s"
  define u where "u = dropWhile isSpace (rev t)"
  define k where "k = length (takeWhile isSpace (rev t))"
  have tr: "trim s = rev u" by (simp add: trim_def t_def u_def)
  with False have ne: "u \<noteq> []" by simp
  then have "\<not> isSpace (hd u)" unfolding u_def by (rule hd_dropWhile)
  then have l: "\<not> isSpace (last (trim s))" using tr by (simp add: last_rev)
  have tne: "t \<noteq> []"
  proof
    assume "t = []"
    then have "u = []" by (simp add: u_def)
    with ne show False by simp
  qed
  then have ht: "\<not> isSpace (hd t)" unfolding t_def by (rule hd_dropWhile)
  have uk: "u = drop k (rev t)" unfolding u_def k_def by (rule dropWhile_eq_drop)
  then have "rev u = take (length (rev t) - k) (rev (rev t))" by (simp only: rev_drop)
  then have ru: "rev u = take (length t - k) t" by simp
  from ne uk have "0 < length t - k" by auto
  then have "hd (take (length t - k) t) = hd t" by (rule hd_take)
  with ru ht have "\<not> isSpace (hd (rev u))" by simp
  with tr l show ?thesis by simp
qed

lemma trim_fixed: "s = [] \<or> (\<not> isSpace (hd s) \<and> \<not> isSpace (last s)) \<Longrightarrow> trim s = s"
proof (cases "s = []")
  case True
  then show ?thesis by (simp add: trim_def)
next
  case False
  assume "s = [] \<or> (\<not> isSpace (hd s) \<and> \<not> isSpace (last s))"
  with False have h: "\<not> isSpace (hd s)" and l: "\<not> isSpace (last s)" by auto
  from h False have 1: "dropWhile isSpace s = s" by (simp add: dropWhile_id)
  from l False have "\<not> isSpace (hd (rev s))" by (simp add: hd_rev)
  then have "dropWhile isSpace (rev s) = rev s" using False by (simp add: dropWhile_id)
  with 1 show ?thesis by (simp add: trim_def)
qed

lemma trim_trim: "trim (trim s) = trim s"
  by (rule trim_fixed) (rule trim_ends)

lemma trim_sublist: "sublist (trim s) s"
proof -
  define t where "t = dropWhile isSpace s"
  have 1: "sublist t s" unfolding t_def by (rule sublist_dropWhile)
  have "sublist (dropWhile isSpace (rev t)) (rev t)" by (rule sublist_dropWhile)
  then have "sublist (rev (dropWhile isSpace (rev t))) (rev (rev t))" by (simp only: sublist_rev)
  then have "sublist (trim s) t" by (simp add: trim_def t_def)
  from this 1 show ?thesis by (rule sublist_order.order.trans)
qed

lemma split_from_sublist: "p \<in> set (split_from sep cur s) \<Longrightarrow> sublist p (cur @ s)"
proof (induction s arbitrary: cur)
  case Nil
  then show ?case by simp
next
  case (Cons c cs)
  show ?case
  proof (cases "c = sep")
    case True
    with Cons.prems consider "p = cur" | "p \<in> set (split_from sep [] cs)" by auto
    then show ?thesis
    proof cases
      case 1
      then show ?thesis by (simp add: prefix_imp_sublist)
    next
      case 2
      from Cons.IH[OF 2] have "sublist p cs" by simp
      then obtain ps ss where "cs = ps @ p @ ss" unfolding sublist_def by blast
      then have "cur @ c # cs = (cur @ c # ps) @ p @ ss" by simp
      then show ?thesis unfolding sublist_def by blast
    qed
  next
    case False
    with Cons.prems have "p \<in> set (split_from sep (cur @ [c]) cs)" by simp
    from Cons.IH[OF this] show ?thesis by simp
  qed
qed

lemma split_str_sublist: "p \<in> set (split_str sep s) \<Longrightarrow> sublist p s"
  unfolding split_str_def using split_from_sublist[of p sep "[]" s] by simp

lemma split_from_no_sep:
  "p \<in> set (split_from sep cur s) \<Longrightarrow> sep \<notin> set cur \<Longrightarrow> sep \<notin> set p"
proof (induction s arbitrary: cur)
  case Nil
  then show ?case by simp
next
  case (Cons c cs)
  show ?case
  proof (cases "c = sep")
    case True
    with Cons.prems consider "p = cur" | "p \<in> set (split_from sep [] cs)" by auto
    then show ?thesis
    proof cases
      case 1
      with Cons.prems show ?thesis by simp
    next
      case 2
      from Cons.IH[OF 2] show ?thesis by simp
    qed
  next
    case False
    with Cons.prems have "p \<in> set (split_from sep (cur @ [c]) cs)" by simp
    from Cons.IH[OF this] Cons.prems(2) False show ?thesis by simp
  qed
qed

lemma split_str_no_sep: "p \<in> set (split_str sep s) \<Longrightarrow> sep \<notin> set p"
  unfolding split_str_def using split_from_no_sep[of p sep "[]" s] by simp

lemma split_from_no_sep_text: "sep \<notin> set s \<Longrightarrow> split_from sep cur s = [cur @ s]"
  by (induction s arbitrary: cur) auto

lemma split_from_append:
  "sep \<notin> set x \<Longrightarrow> split_from sep cur (x @ sep # rest) = (cur @ x) # split_from sep [] rest"
  by (induction x arbitrary: cur) auto

lemma split_join:
  "E \<noteq> [] \<Longrightarrow> \<forall>e \<in> set E. sep \<notin> set e \<Longrightarrow> split_str sep (join_str [sep] E) = E"
proof (induction "[sep]" E rule: join_str.induct)
  case 1
  then show ?case by simp
next
  case (2 x)
  then show ?case by (simp add: split_str_def split_from_no_sep_text)
next
  case (3 x y ys)
  then have "split_str sep (join_str [sep] (y # ys)) = y # ys" by simp
  moreover from 3 have "sep \<notin> set x" by simp
  ultimately show ?case by (simp add: split_str_def split_from_append)
qed

lemma sublist_comma_free_append:
  assumes "sublist m (x @ sep # rest)" and "m \<noteq> []" and "sep \<notin> set m"
  shows "sublist m x \<or> sublist m rest"
proof -
  from assms(1) consider "sublist m x" | "sublist m (sep # rest)"
    | xs1 xs2 where "m = xs1 @ xs2" "suffix xs1 x" "prefix xs2 (sep # rest)"
    unfolding sublist_append by blast
  then show ?thesis
  proof cases
    case 1
    then show ?thesis ..
  next
    case 2
    then have "prefix m (sep # rest) \<or> sublist m rest" by (simp add: sublist_Cons_right)
    moreover have "\<not> prefix m (sep # rest)"
      using assms(2,3) by (cases m) (auto simp: prefix_Cons)
    ultimately show ?thesis by simp
  next
    case 3
    have "xs2 = []"
    proof (cases xs2)
      case Nil
      then show ?thesis .
    next
      case (Cons a list)
      with 3(3) have "a = sep" by (simp add: prefix_Cons)
      with Cons 3(1) assms(3) show ?thesis by simp
    qed
    with 3 have "suffix m x" by simp
    then show ?thesis by (simp add: suffix_imp_sublist)
  qed
qed

lemma sublist_join:
  "sublist m (join_str [sep] E) \<Longrightarrow> m \<noteq> [] \<Longrightarrow> sep \<notin> set m \<Longrightarrow> \<exists>e \<in> set E. sublist m e"
proof (induction "[sep]" E rule: join_str.induct)
  case 1
  then show ?case by simp
next
  case (2 x)
  then show ?case by simp
next
  case (3 x y ys)
  from 3(2) have "sublist m (x @ sep # join_str [sep] (y # ys))" by simp
  from sublist_comma_free_append[OF this 3(3,4)]
  show ?case
  proof
    assume "sublist m x"
    then show ?thesis by simp
  next
    assume "sublist m (join_str [sep] (y # ys))"
    from 3(1)[OF this 3(3,4)] show ?thesis by auto
  qed
qed

lemma set_join: "set (join_str sep E) \<subseteq> set sep \<union> (\<Union>e \<in> set E. set e)"
  by (induction sep E rule: join_str.induct) auto

section \<open>Parsing the joined result again\<close>

text \<open>
  The shortest text with a match of the word: a white-space character, the three
  letters, a white-space character.  A text has a match exactly when it has such a piece.
\<close>

definition isAnd5 :: "string \<Rightarrow> bool" where
  "isAnd5 m = (\<exists>c1 w c2. m = c1 # w @ [c2] \<and> isSpace c1 \<and> isSpace c2 \<and> toLowerCase w = ''and'')"

definition hasAnd :: "string \<Rightarrow> bool" where
  "hasAnd t = (\<exists>m. isAnd5 m \<and> sublist m t)"

lemma small_letter_plain:
  assumes "in_range CHR ''a'' CHR ''z'' p" and "lowerChar c = p"
  shows "\<not> isSpace c" and "c \<noteq> CHR '',''"
proof -
  from assms(1) have q: "97 \<le> charCode p" "charCode p \<le> 122"
    by (simp_all add: in_range_def charCode_table)
  have lt: "charCode p - 32 < 256" using q by arith
  from lowerChar_eq_small[OF assms(1), of c] assms(2) have "c = p \<or> c = upperAscii p" by simp
  moreover have "charCode (upperAscii p) = charCode p - 32"
    using assms(1) lt by (simp add: upperAscii_def charCode_char_of)
  ultimately have "charCode c = charCode p \<or> charCode c = charCode p - 32" by auto
  with q have r: "65 \<le> charCode c" "charCode c \<le> 122" by auto
  then show "\<not> isSpace c" by (auto simp: isSpace_def)
  from r show "c \<noteq> CHR '',''" by (auto simp: charCode_table)
qed

lemma lower_and:
  assumes "toLowerCase w = ''and''"
  shows "\<exists>a n d. w = [a, n, d] \<and> \<not> isSpace a \<and> \<not> isSpace n \<and> \<not> isSpace d
           \<and> a \<noteq> CHR '','' \<and> n \<noteq> CHR '','' \<and> d \<noteq> CHR '',''"
proof -
  from assms obtain a n d where w: "w = [a, n, d]"
    and l: "lowerChar a = CHR ''a''" "lowerChar n = CHR ''n''" "lowerChar d = CHR ''d''"
    by (auto simp: toLowerCase_def map_eq_Cons_conv)
  have r: "in_range CHR ''a'' CHR ''z'' CHR ''a''" "in_range CHR ''a'' CHR ''z'' CHR ''n''"
    "in_range CHR ''a'' CHR ''z'' CHR ''d''" by (simp_all add: in_range_def charCode_table)
  from small_letter_plain[OF r(1) l(1)] small_letter_plain[OF r(2) l(2)]
    small_letter_plain[OF r(3) l(3)] w show ?thesis by blast
qed

lemma space_not_comma: "isSpace c \<Longrightarrow> c \<noteq> CHR '',''"
  by (auto simp: isSpace_def charCode_table)

lemma isAnd5_plain: "isAnd5 m \<Longrightarrow> m \<noteq> [] \<and> CHR '','' \<notin> set m"
  unfolding isAnd5_def using lower_and space_not_comma by fastforce

lemma hasAnd_Nil: "\<not> hasAnd []"
  unfolding hasAnd_def using isAnd5_plain by auto

lemma hasAnd_sublist: "hasAnd t \<Longrightarrow> sublist t t' \<Longrightarrow> hasAnd t'"
  unfolding hasAnd_def using sublist_order.order.trans by blast

lemma andMatch_shorter: "andMatch r = Some r' \<Longrightarrow> length r' < length r"
proof -
  assume "andMatch r = Some r'"
  then have ws: "takeWhile isSpace r \<noteq> []"
    and r': "r' = dropWhile isSpace (drop 3 (dropWhile isSpace r))"
    by (auto simp: andMatch_def Let_def split: if_splits)
  have "length (takeWhile isSpace r) + length (dropWhile isSpace r) = length r"
    by (metis length_append takeWhile_dropWhile_id)
  with ws have "length (dropWhile isSpace r) < length r" by (cases "takeWhile isSpace r") auto
  moreover have "length r' \<le> length (drop 3 (dropWhile isSpace r))"
    unfolding r' by (rule length_dropWhile_le)
  ultimately show ?thesis by simp
qed

lemma andMatch_intro:
  assumes "isSpace x" and "toLowerCase w = ''and''" and "isSpace c2"
  shows "andMatch (x # w @ c2 # rest) \<noteq> None"
proof -
  from lower_and[OF assms(2)] obtain a n d where w: "w = [a, n, d]" and a: "\<not> isSpace a" by blast
  from assms a w show ?thesis by (simp add: andMatch_def Let_def)
qed

lemma andMatch_hasAnd:
  assumes "andMatch r = Some r'"
  shows "hasAnd r"
proof -
  define ws where "ws = takeWhile isSpace r"
  define r1 where "r1 = dropWhile isSpace r"
  define ws2 where "ws2 = takeWhile isSpace (drop 3 r1)"
  from assms have ne: "ws \<noteq> []" and w: "toLowerCase (take 3 r1) = ''and''" and ne2: "ws2 \<noteq> []"
    by (auto simp: andMatch_def Let_def ws_def r1_def ws2_def split: if_splits)
  have r: "r = ws @ r1" by (simp add: ws_def r1_def)
  have r1: "r1 = take 3 r1 @ drop 3 r1" by simp
  have r2: "drop 3 r1 = ws2 @ dropWhile isSpace (drop 3 r1)" by (simp add: ws2_def)
  have s1: "isSpace (last ws)" using ne set_takeWhileD[of "last ws" isSpace r] by (simp add: ws_def)
  have s2: "isSpace (hd ws2)"
    using ne2 set_takeWhileD[of "hd ws2" isSpace "drop 3 r1"] by (simp add: ws2_def)
  have m: "isAnd5 (last ws # take 3 r1 @ [hd ws2])"
    unfolding isAnd5_def using s1 s2 w by blast
  have "r = butlast ws @ [last ws] @ take 3 r1 @ [hd ws2] @ tl ws2 @ dropWhile isSpace (drop 3 r1)"
  proof -
    have "ws = butlast ws @ [last ws]" using ne by simp
    moreover have "ws2 = [hd ws2] @ tl ws2" using ne2 by simp
    ultimately show ?thesis using r r1 r2 by (metis append.assoc)
  qed
  then have "r = butlast ws @ (last ws # take 3 r1 @ [hd ws2]) @ (tl ws2 @ dropWhile isSpace (drop 3 r1))"
    by simp
  then have "sublist (last ws # take 3 r1 @ [hd ws2]) r" unfolding sublist_def by blast
  with m show ?thesis unfolding hasAnd_def by blast
qed

lemma scan_head:
  assumes "scanReplace andMatch '','' r = c # y" and "c \<noteq> CHR '',''"
  shows "\<exists>r'. r = c # r' \<and> scanReplace andMatch '','' r' = y"
proof (cases r)
  case Nil
  with assms show ?thesis by simp
next
  case (Cons x xs)
  show ?thesis
  proof (cases "andMatch (x # xs)")
    case None
    with assms Cons show ?thesis by simp
  next
    case (Some r')
    from andMatch_shorter[OF Some] Some assms Cons show ?thesis by simp
  qed
qed

lemma scan_prefix:
  "scanReplace andMatch '','' r = P @ y \<Longrightarrow> CHR '','' \<notin> set P \<Longrightarrow>
   \<exists>r'. r = P @ r' \<and> scanReplace andMatch '','' r' = y"
proof (induction P arbitrary: r)
  case Nil
  then show ?case by simp
next
  case (Cons c P)
  from Cons.prems have "scanReplace andMatch '','' r = c # (P @ y)" "c \<noteq> CHR '',''" by auto
  from scan_head[OF this] obtain r1 where r1: "r = c # r1" "scanReplace andMatch '','' r1 = P @ y"
    by blast
  from Cons.IH[OF r1(2)] Cons.prems(2) obtain r' where "r1 = P @ r'" "scanReplace andMatch '','' r' = y"
    by auto
  with r1 show ?case by simp
qed

lemma scan_no_and: "\<not> hasAnd (scanReplace andMatch '','' s)"
proof (induction "length s" arbitrary: s rule: less_induct)
  case less
  show ?case
  proof (cases s)
    case Nil
    then show ?thesis by (simp add: hasAnd_Nil)
  next
    case (Cons x xs)
    show ?thesis
    proof (cases "andMatch (x # xs)")
      case None
      have ih: "\<not> hasAnd (scanReplace andMatch '','' xs)" using less Cons by simp
      have res: "scanReplace andMatch '','' s = x # scanReplace andMatch '','' xs"
        using None Cons by simp
      show ?thesis
      proof
        assume "hasAnd (scanReplace andMatch '','' s)"
        then obtain m where m: "isAnd5 m" "sublist m (x # scanReplace andMatch '','' xs)"
          unfolding hasAnd_def res by blast
        from m(2) ih m(1) have p: "prefix m (x # scanReplace andMatch '','' xs)"
          unfolding sublist_Cons_right hasAnd_def by blast
        from m(1) obtain c1 w c2 where mm: "m = c1 # w @ [c2]" "isSpace c1" "isSpace c2"
          "toLowerCase w = ''and''" unfolding isAnd5_def by blast
        from p mm(1) have x: "x = c1" and "prefix (w @ [c2]) (scanReplace andMatch '','' xs)"
          by (simp_all add: prefix_Cons)
        then obtain post where "scanReplace andMatch '','' xs = (w @ [c2]) @ post"
          unfolding prefix_def by blast
        moreover have "CHR '','' \<notin> set (w @ [c2])" using isAnd5_plain[OF m(1)] mm(1) by simp
        ultimately obtain r' where "xs = (w @ [c2]) @ r'" using scan_prefix by blast
        then have "x # xs = c1 # w @ c2 # r'" using x by simp
        with andMatch_intro[OF mm(2) mm(4) mm(3), of r'] None show False by simp
      qed
    next
      case (Some r')
      from andMatch_shorter[OF Some] have lt: "length r' < length (x # xs)" .
      then have ih: "\<not> hasAnd (scanReplace andMatch '','' r')" using less Cons by simp
      have res: "scanReplace andMatch '','' s = CHR '','' # scanReplace andMatch '','' r'"
        using Some Cons lt by simp
      show ?thesis
      proof
        assume "hasAnd (scanReplace andMatch '','' s)"
        then obtain m where m: "isAnd5 m" "sublist m (CHR '','' # scanReplace andMatch '','' r')"
          unfolding hasAnd_def res by blast
        from m(2) ih m(1) have p: "prefix m (CHR '','' # scanReplace andMatch '','' r')"
          unfolding sublist_Cons_right hasAnd_def by blast
        from isAnd5_plain[OF m(1)] p show False by (cases m) (auto simp: prefix_Cons)
      qed
    qed
  qed
qed

lemma no_and_fixed: "\<not> hasAnd t \<Longrightarrow> scanReplace andMatch rep t = t"
proof (induction t)
  case Nil
  show ?case by simp
next
  case (Cons x xs)
  have "andMatch (x # xs) = None"
  proof (cases "andMatch (x # xs)")
    case (Some r')
    from andMatch_hasAnd[OF this] Cons.prems show ?thesis by simp
  qed simp
  moreover have "\<not> hasAnd xs"
  proof
    assume "hasAnd xs"
    moreover have "sublist xs (x # xs)" by (simp add: sublist_Cons_right)
    ultimately have "hasAnd (x # xs)" by (rule hasAnd_sublist)
    with Cons.prems show False by simp
  qed
  ultimately show ?case using Cons.IH by simp
qed

lemma scan_set: "set (scanReplace andMatch '','' s) \<subseteq> insert CHR '','' (set s)"
proof (induction "length s" arbitrary: s rule: less_induct)
  case less
  show ?case
  proof (cases s)
    case Nil
    then show ?thesis by simp
  next
    case (Cons x xs)
    show ?thesis
    proof (cases "andMatch (x # xs)")
      case None
      have "set (scanReplace andMatch '','' xs) \<subseteq> insert CHR '','' (set xs)"
        using less Cons by simp
      with None Cons show ?thesis by auto
    next
      case (Some r')
      from andMatch_shorter[OF Some] have lt: "length r' < length (x # xs)" .
      then have ih: "set (scanReplace andMatch '','' r') \<subseteq> insert CHR '','' (set r')"
        using less Cons by simp
      from Some have "r' = dropWhile isSpace (drop 3 (dropWhile isSpace (x # xs)))"
        by (auto simp: andMatch_def Let_def split: if_splits)
      then have "sublist r' (x # xs)"
        by (metis sublist_drop sublist_dropWhile sublist_order.order.trans)
      then have "set r' \<subseteq> set (x # xs)" by (rule set_mono_sublist)
      with ih Some lt Cons show ?thesis by auto
    qed
  qed
qed

lemma referenceParse_Nil: "referenceParse [] = []"
  by (simp add: referenceParse_def split_str_def trim_def)

lemma referenceParse_elem:
  assumes "e \<in> set (referenceParse s)"
  shows "e \<noteq> []" and "trim e = e" and "CHR '','' \<notin> set e"
    and "\<forall>c \<in> set e. \<not> isBracketOrQuote c"
    and "sublist e (scanReplace andMatch '','' (filter (\<lambda>c. \<not> isBracketOrQuote c) s))"
proof -
  define y where "y = scanReplace andMatch '','' (filter (\<lambda>c. \<not> isBracketOrQuote c) s)"
  from assms obtain p where p: "p \<in> set (split_str CHR '','' y)" and e: "e = trim p" and ne: "e \<noteq> []"
    by (auto simp: referenceParse_def y_def)
  show "e \<noteq> []" by (rule ne)
  show "trim e = e" unfolding e by (rule trim_trim)
  have ep: "sublist e p" unfolding e by (rule trim_sublist)
  then have sep: "set e \<subseteq> set p" by (rule set_mono_sublist)
  from split_str_no_sep[OF p] sep show "CHR '','' \<notin> set e" by auto
  from split_str_sublist[OF p] have py: "sublist p y" .
  from ep py have ey: "sublist e y" by (rule sublist_order.order.trans)
  then show "sublist e (scanReplace andMatch '','' (filter (\<lambda>c. \<not> isBracketOrQuote c) s))"
    by (simp add: y_def)
  have "set y \<subseteq> insert CHR '','' (set (filter (\<lambda>c. \<not> isBracketOrQuote c) s))"
    unfolding y_def by (rule scan_set)
  moreover have "\<not> isBracketOrQuote CHR '',''" by (simp add: isBracketOrQuote_def)
  ultimately have "\<forall>c \<in> set y. \<not> isBracketOrQuote c" by auto
  with set_mono_sublist[OF ey] show "\<forall>c \<in> set e. \<not> isBracketOrQuote c" by auto
qed

lemma referenceParse_rejoin:
  "referenceParse (join_str '','' (referenceParse s)) = referenceParse s"
proof (cases "referenceParse s = []")
  case True
  then show ?thesis by (simp add: referenceParse_Nil)
next
  case False
  define E where "E = referenceParse s"
  define z where "z = join_str '','' E"
  define y where "y = scanReplace andMatch '','' (filter (\<lambda>c. \<not> isBracketOrQuote c) s)"
  have ne: "E \<noteq> []" using False by (simp add: E_def)
  have el: "e \<noteq> []" "trim e = e" "CHR '','' \<notin> set e" "\<forall>c \<in> set e. \<not> isBracketOrQuote c"
    "sublist e y" if "e \<in> set E" for e
    using referenceParse_elem[of e s] that by (simp_all add: E_def y_def)
  have "set z \<subseteq> set '','' \<union> (\<Union>e \<in> set E. set e)" unfolding z_def by (rule set_join)
  moreover have "\<not> isBracketOrQuote CHR '',''" by (simp add: isBracketOrQuote_def)
  ultimately have "\<forall>c \<in> set z. \<not> isBracketOrQuote c" using el(4) by auto
  then have 1: "filter (\<lambda>c. \<not> isBracketOrQuote c) z = z" by (simp add: filter_id_conv)
  have "\<not> hasAnd z"
  proof
    assume "hasAnd z"
    then obtain m where m: "isAnd5 m" "sublist m (join_str [CHR '',''] E)"
      unfolding hasAnd_def z_def by blast
    from isAnd5_plain[OF m(1)] have "m \<noteq> []" "CHR '','' \<notin> set m" by simp_all
    from sublist_join[OF m(2) this] obtain e where e: "e \<in> set E" "sublist m e" by blast
    from e(2) el(5)[OF e(1)] have "sublist m y" by (rule sublist_order.order.trans)
    with m(1) have "hasAnd y" unfolding hasAnd_def by blast
    with scan_no_and show False unfolding y_def by blast
  qed
  then have 2: "scanReplace andMatch '','' z = z" by (rule no_and_fixed)
  have 3: "split_str CHR '','' z = E"
    unfolding z_def using split_join[OF ne, of "CHR '',''"] el(3) by auto
  have 4: "map trim E = E" using el(2) by (simp add: map_idI)
  have 5: "filter (\<lambda>piece. piece \<noteq> []) E = E" using el(1) by (simp add: filter_id_conv)
  show ?thesis unfolding referenceParse_def[of z, folded z_def]
    using 1 2 3 4 5 by (simp add: referenceParse_def[of z] E_def[symmetric] z_def[symmetric])
qed

section \<open>The calls of \<open>foundComponents.set\<close>\<close>

text \<open>
  The pairs that the pass over the patterns gives to \<open>foundComponents.set\<close>, in the
  order of the calls: pattern after pattern, and for one pattern match after match.
\<close>

fun patternWrites :: "(bool \<times> regex) list \<Rightarrow> string \<Rightarrow> (string \<times> tvalue) list option" where
  "patternWrites [] description = Some []"
| "patternWrites ((ic, pattern) # rest) description =
     (case exec_all ic pattern description 0 of
        None \<Rightarrow> None
      | Some matches \<Rightarrow>
          (case patternWrites rest description of
             None \<Rightarrow> None
           | Some ws \<Rightarrow> Some (List.map_filter accepted matches @ ws)))"

definition acceptedWrites :: "string \<Rightarrow> (string \<times> tvalue) list option" where
  "acceptedWrites description = patternWrites componentPatterns description"

definition setAll :: "components \<Rightarrow> (string \<times> tvalue) list \<Rightarrow> components" where
  "setAll found ws = foldl (\<lambda>f (name, ty). map_set name ty f) found ws"

definition lastWrite :: "(string \<times> tvalue) list \<Rightarrow> string \<Rightarrow> tvalue option" where
  \<comment> \<open>the type of the last pair with this name\<close>
  "lastWrite ws name = map_of (rev ws) name"

lemma map_set_keys: "map fst (map_set k v f) = (if k \<in> fst ` set f then map fst f else map fst f @ [k])"
  by (induction f) force+

lemma map_set_distinct: "distinct (map fst f) \<Longrightarrow> distinct (map fst (map_set k v f))"
  by (simp add: map_set_keys)

lemma map_set_map_of: "map_of (map_set k v f) = (map_of f)(k \<mapsto> v)"
  by (induction f) (auto simp: fun_eq_iff)

lemma setAll_distinct: "distinct (map fst f) \<Longrightarrow> distinct (map fst (setAll f ws))"
  unfolding setAll_def
  by (induction ws arbitrary: f) (auto simp: map_set_distinct)

lemma setAll_map_of: "map_of (setAll f ws) = map_of f ++ map_of (rev ws)"
  unfolding setAll_def
proof (induction ws arbitrary: f)
  case Nil
  show ?case by simp
next
  case (Cons w ws)
  obtain k v where w: "w = (k, v)" by (cases w)
  have "map_of (foldl (\<lambda>f (name, ty). map_set name ty f) (map_set k v f) ws)
      = map_of (map_set k v f) ++ map_of (rev ws)" by (rule Cons.IH)
  also have "\<dots> = (map_of f)(k \<mapsto> v) ++ map_of (rev ws)" by (simp add: map_set_map_of)
  also have "\<dots> = map_of f ++ map_of (rev ws @ [(k, v)])"
    by (auto simp: fun_eq_iff map_add_def split: option.splits)
  finally show ?case by (simp add: w)
qed

lemma setAll_append: "setAll f (ws @ ws') = setAll (setAll f ws) ws'"
  by (simp add: setAll_def)

lemma foldl_processMatch: "foldl processMatch f ms = setAll f (List.map_filter accepted ms)"
proof (induction ms arbitrary: f)
  case Nil
  show ?case by (simp add: setAll_def List.map_filter_simps)
next
  case (Cons m ms)
  show ?case
  proof (cases "accepted m")
    case None
    then show ?thesis using Cons.IH[of f] by (simp add: processMatch_def List.map_filter_simps)
  next
    case (Some w)
    obtain k v where w: "w = (k, v)" by (cases w)
    with Some Cons.IH[of "map_set k v f"] show ?thesis
      by (simp add: processMatch_def List.map_filter_simps setAll_def)
  qed
qed

lemma processPatterns_writes:
  "processPatterns ps d f = map_option (setAll f) (patternWrites ps d)"
proof (induction ps arbitrary: f)
  case Nil
  show ?case by (simp add: setAll_def)
next
  case (Cons p ps)
  obtain ic e where p: "p = (ic, e)" by (cases p)
  show ?case
  proof (cases "exec_all ic e d 0")
    case None
    then show ?thesis by (simp add: p)
  next
    case (Some ms)
    show ?thesis
    proof (cases "patternWrites ps d")
      case None
      with Some Cons.IH show ?thesis by (simp add: p)
    next
      case (Some ws)
      with \<open>exec_all ic e d 0 = Some ms\<close> Cons.IH show ?thesis
        by (simp add: p foldl_processMatch setAll_append)
    qed
  qed
qed

lemma patternPass_writes: "patternPass d = map_option (setAll []) (acceptedWrites d)"
  by (simp add: patternPass_def acceptedWrites_def processPatterns_writes)

lemma acceptedWrites_total: "\<exists>ws. acceptedWrites d = Some ws"
proof -
  from patternPass_total[of d] obtain f where "patternPass d = Some f" by blast
  then show ?thesis unfolding patternPass_writes by (cases "acceptedWrites d") simp_all
qed

lemma processFallback_distinct:
  "distinct (map fst f) \<Longrightarrow> distinct (map fst (processFallback d f m))"
  by (auto simp: processFallback_def Let_def map_set_distinct split: option.splits)

lemma foldl_processFallback_distinct:
  "distinct (map fst f) \<Longrightarrow> distinct (map fst (foldl (processFallback d) f ms))"
  by (induction ms arbitrary: f) (auto simp: processFallback_distinct)

text \<open>What the parser returns, in terms of the pairs written by the pass over the patterns.\<close>

lemma parse_found:
  assumes "patternPass d = Some f" and "f \<noteq> []"
  shows "parseChangesToCopadoFormat d = Some (map (toChange (defaultAction d)) f)"
  using assms by (simp add: parseChangesToCopadoFormat_def)

lemma parse_fallback:
  assumes "patternPass d = Some []" and "fallbackPass d [] = Some f"
  shows "parseChangesToCopadoFormat d =
           Some (if f \<noteq> [] then map (toChange (defaultAction d)) f
                 else [unknownComponent (defaultAction d)])"
  using assms by (simp add: parseChangesToCopadoFormat_def)

lemma toChange_names: "map ch_n (map (toChange a) f) = map fst f"
  by (induction f) (simp_all add: toChange_def)

lemma parse_distinct:
  assumes "parseChangesToCopadoFormat d = Some changes"
  shows "distinct (map ch_n changes)"
proof -
  obtain ws where ws: "acceptedWrites d = Some ws" using acceptedWrites_total by blast
  then have pp: "patternPass d = Some (setAll [] ws)" by (simp add: patternPass_writes)
  have dk: "distinct (map fst (setAll [] ws))" by (rule setAll_distinct) simp
  show ?thesis
  proof (cases "setAll [] ws = []")
    case False
    from parse_found[OF pp False] assms
    have "changes = map (toChange (defaultAction d)) (setAll [] ws)" by simp
    with dk show ?thesis by (simp only: toChange_names)
  next
    case True
    obtain f where f: "fallbackPass d [] = Some f" using fallbackPass_total by blast
    then obtain ms where "f = foldl (processFallback d) [] ms"
      by (auto simp: fallbackPass_def split: option.splits)
    then have df: "distinct (map fst f)" by (simp add: foldl_processFallback_distinct)
    from pp True have "patternPass d = Some []" by simp
    from parse_fallback[OF this f] assms
    have c: "changes = (if f \<noteq> [] then map (toChange (defaultAction d)) f
                 else [unknownComponent (defaultAction d)])" by simp
    show ?thesis
    proof (cases "f = []")
      case True
      with c show ?thesis by simp
    next
      case False
      with c have "changes = map (toChange (defaultAction d)) f" by simp
      with df show ?thesis by (simp only: toChange_names)
    qed
  qed
qed

lemma parse_last_write:
  assumes "acceptedWrites d = Some ws" and "lastWrite ws name = Some ty"
  shows "\<exists>changes. parseChangesToCopadoFormat d = Some changes
           \<and> (\<exists>!c. c \<in> set changes \<and> ch_n c = name)
           \<and> (\<forall>c \<in> set changes. ch_n c = name \<longrightarrow> ch_t c = ty)"
proof -
  define f where "f = setAll [] ws"
  define changes where "changes = map (toChange (defaultAction d)) f"
  have pp: "patternPass d = Some f" using assms(1) by (simp add: patternPass_writes f_def)
  have mo: "map_of f name = Some ty"
    using assms(2) by (simp add: setAll_map_of lastWrite_def f_def)
  then have mem: "(name, ty) \<in> set f" by (rule map_of_SomeD)
  then have "f \<noteq> []" by auto
  from parse_found[OF pp this] have c: "parseChangesToCopadoFormat d = Some changes"
    by (simp add: changes_def)
  have dk: "distinct (map fst f)" unfolding f_def by (rule setAll_distinct) simp
  define c0 where "c0 = toChange (defaultAction d) (name, ty)"
  have in1: "c0 \<in> set changes" using mem by (auto simp: changes_def c0_def)
  have n1: "ch_n c0 = name" and t1: "ch_t c0 = ty" by (simp_all add: toChange_def c0_def)
  have uniq: "c = c0" if "c \<in> set changes" "ch_n c = name" for c
  proof -
    from that(1) obtain kv where kv: "kv \<in> set f" and cc: "c = toChange (defaultAction d) kv"
      by (auto simp: changes_def)
    from that(2) cc have k: "fst kv = name" by (simp add: toChange_def)
    then have "(name, snd kv) \<in> set f" using kv by (metis prod.collapse)
    from map_of_is_SomeI[OF dk this] mo have "snd kv = ty" by simp
    with k have "kv = (name, ty)" by (metis prod.collapse)
    with cc show ?thesis by (simp add: c0_def)
  qed
  have 1: "\<exists>!c. c \<in> set changes \<and> ch_n c = name"
  proof (rule ex1I[of _ c0])
    show "c0 \<in> set changes \<and> ch_n c0 = name" using in1 n1 by simp
  next
    fix c assume "c \<in> set changes \<and> ch_n c = name"
    then show "c = c0" using uniq by blast
  qed
  have 2: "\<forall>c \<in> set changes. ch_n c = name \<longrightarrow> ch_t c = ty"
  proof (intro ballI impI)
    fix c assume "c \<in> set changes" "ch_n c = name"
    then have "c = c0" by (rule uniq)
    then show "ch_t c = ty" using t1 by simp
  qed
  from c 1 2 show ?thesis by blast
qed

section \<open>The first pattern: a name, then a type word\<close>

definition typeWords :: "string list" where
  \<comment> \<open>the alternatives of \<open>typeWord\<close>\<close>
  "typeWords = [''class'', ''trigger'', ''component'', ''flow'', ''object'', ''field'',
                ''layout'', ''profile'', ''label'']"

definition firstPattern :: regex where
  "firstPattern = Cat Bnd (Cat (Grp 1 identPattern) (Cat (Rep 1 [Spc]) (Cat (Grp 2 typeWord) Bnd)))"

lemma componentPatterns_first: "\<exists>rest. componentPatterns = (True, firstPattern) # rest"
  by (simp add: componentPatterns_def firstPattern_def)

definition isLetter :: "char \<Rightarrow> bool" where
  "isLetter c = (in_range CHR ''A'' CHR ''Z'' c \<or> in_range CHR ''a'' CHR ''z'' c)"

lemma isLetter_word: "isLetter c \<Longrightarrow> isWordChar c"
  by (auto simp: isLetter_def isWordChar_def)

lemma word_not_space: "isWordChar c \<Longrightarrow> \<not> isSpace c"
  by (auto simp: isWordChar_def isSpace_def in_range_def charCode_table)

lemma upperAscii_cases: "upperAscii c = c \<or> in_range CHR ''a'' CHR ''z'' c"
  by (simp add: upperAscii_def)

lemma lowerAscii_cases: "lowerAscii c = c \<or> in_range CHR ''A'' CHR ''Z'' c"
  by (simp add: lowerAscii_def)

lemma upperAscii_underscore: "upperAscii CHR ''_'' = CHR ''_''"
  by (simp add: upperAscii_def in_range_def charCode_table)

lemma item_mem_wordClass: "list_ex (\<lambda>i. item_mem ic i c) wordClass \<Longrightarrow> isWordChar c"
proof -
  assume a: "list_ex (\<lambda>i. item_mem ic i c) wordClass"
  show ?thesis
  proof (cases "in_range CHR ''a'' CHR ''z'' c \<or> in_range CHR ''A'' CHR ''Z'' c")
    case True
    then show ?thesis by (auto simp: isWordChar_def)
  next
    case False
    with upperAscii_cases[of c] lowerAscii_cases[of c]
    have "upperAscii c = c" "lowerAscii c = c" by auto
    with a show ?thesis by (auto simp: wordClass_def isWordChar_def upperAscii_underscore)
  qed
qed

lemma class_mem_wordClass: "class_mem ic wordClass = isWordChar"
proof (rule ext)
  fix c
  have "isWordChar c \<Longrightarrow> class_mem ic wordClass c"
    by (auto simp: class_mem_def wordClass_def isWordChar_def)
  with item_mem_wordClass[of ic c] show "class_mem ic wordClass c = isWordChar c"
    unfolding class_mem_def by blast
qed

lemma class_mem_upperClass_False: "class_mem False upperClass c = in_range CHR ''A'' CHR ''Z'' c"
  by (simp add: class_mem_def upperClass_def)

lemma class_mem_upperClass_True: "class_mem True upperClass c \<Longrightarrow> isLetter c"
proof -
  assume a: "class_mem True upperClass c"
  show ?thesis
  proof (cases "in_range CHR ''a'' CHR ''z'' c \<or> in_range CHR ''A'' CHR ''Z'' c")
    case True
    then show ?thesis by (auto simp: isLetter_def)
  next
    case False
    with upperAscii_cases[of c] lowerAscii_cases[of c]
    have "upperAscii c = c" "lowerAscii c = c" by auto
    with a False show ?thesis by (auto simp: class_mem_def upperClass_def)
  qed
qed

lemma class_mem_upperClass_upper: "in_range CHR ''A'' CHR ''Z'' c \<Longrightarrow> class_mem ic upperClass c"
  by (simp add: class_mem_def upperClass_def)

subsection \<open>What a match of the first pattern looks like\<close>

lemma rx_Cat_mem:
  "(p, c') \<in> set (rx ic (Cat e1 e2) (l, r) c) \<longleftrightarrow>
     (\<exists>q c1. (q, c1) \<in> set (rx ic e1 (l, r) c) \<and> (p, c') \<in> set (rx ic e2 q c1))"
  by auto

lemma rx_Grp_mem:
  "(p, c') \<in> set (rx ic (Grp k e) (l, r) c) \<Longrightarrow>
     \<exists>c1. (p, c1) \<in> set (rx ic e (l, r) c) \<and> c' = c1(k \<mapsto> drop (length l) (fst p))"
  by auto

lemma greedy_mem:
  "(l', r') \<in> set (greedy p l r) \<Longrightarrow> \<exists>ws. l' = l @ ws \<and> r = ws @ r' \<and> (\<forall>x \<in> set ws. p x)"
proof (induction r arbitrary: l)
  case Nil
  then show ?case by simp
next
  case (Cons c cs)
  show ?case
  proof (cases "p c")
    case True
    with Cons.prems consider "(l', r') \<in> set (greedy p (l @ [c]) cs)" | "(l', r') = (l, c # cs)"
      by auto
    then show ?thesis
    proof cases
      case 1
      from Cons.IH[OF 1] obtain ws where "l' = (l @ [c]) @ ws" "cs = ws @ r'" "\<forall>x \<in> set ws. p x"
        by blast
      with True have "l' = l @ (c # ws) \<and> c # cs = (c # ws) @ r' \<and> (\<forall>x \<in> set (c # ws). p x)"
        by simp
      then show ?thesis by blast
    next
      case 2
      then have "l' = l @ [] \<and> c # cs = [] @ r' \<and> (\<forall>x \<in> set []. p x)" by simp
      then show ?thesis by blast
    qed
  next
    case False
    with Cons.prems have "l' = l @ [] \<and> c # cs = [] @ r' \<and> (\<forall>x \<in> set []. p x)" by simp
    then show ?thesis by blast
  qed
qed

lemma rx_Rep_mem:
  assumes "((l', r'), c') \<in> set (rx ic (Rep lo cls) (l, r) c)"
  shows "\<exists>ws. l' = l @ ws \<and> r = ws @ r' \<and> lo \<le> length ws \<and> (\<forall>x \<in> set ws. class_mem ic cls x) \<and> c' = c"
proof -
  from assms have g: "(l', r') \<in> set (greedy (class_mem ic cls) l r)"
    and len: "length l + lo \<le> length l'" and c: "c' = c" by auto
  from greedy_mem[OF g] obtain ws where ws: "l' = l @ ws" "r = ws @ r'"
    "\<forall>x \<in> set ws. class_mem ic cls x" by blast
  with len have "lo \<le> length ws" by simp
  with ws c show ?thesis by blast
qed

lemma typeWords_small: "w \<in> set typeWords \<Longrightarrow> list_all (in_range CHR ''a'' CHR ''z'') w"
  by (auto simp: typeWords_def in_range_def charCode_table)

lemma rx_Str_small_mem:
  assumes "((l', r'), c') \<in> set (rx True (Str w) (l, r) c)" and "list_all (in_range CHR ''a'' CHR ''z'') w"
  shows "\<exists>tw. l' = l @ tw \<and> r = tw @ r' \<and> toLowerCase tw = w \<and> c' = c"
proof -
  from assms(1) have m: "lit_match True w r" and l': "l' = l @ take (length w) r"
    and r': "r' = drop (length w) r" and c: "c' = c" by (auto split: if_splits)
  from m lit_match_small[OF assms(2)] have "toLowerCase (take (length w) r) = w" by simp
  moreover have "r = take (length w) r @ r'" using r' by simp
  ultimately show ?thesis using l' c by blast
qed

lemma rx_typeWord_mem:
  assumes "((l', r'), c') \<in> set (rx True typeWord (l, r) c)"
  shows "\<exists>tw. l' = l @ tw \<and> r = tw @ r' \<and> toLowerCase tw \<in> set typeWords \<and> c' = c"
proof -
  from assms obtain w where w: "w \<in> set typeWords"
    and m: "((l', r'), c') \<in> set (rx True (Str w) (l, r) c)"
    unfolding typeWord_def typeWords_def by (auto simp del: rx.simps(1) split: if_splits)
  from rx_Str_small_mem[OF m typeWords_small[OF w]] w show ?thesis by auto
qed

lemma typeWord_letters:
  assumes "toLowerCase tw \<in> set typeWords"
  shows "tw \<noteq> []" and "\<forall>x \<in> set tw. isWordChar x"
proof -
  from assms show "tw \<noteq> []" by (auto simp: typeWords_def toLowerCase_def)
  show "\<forall>x \<in> set tw. isWordChar x"
  proof
    fix x assume x: "x \<in> set tw"
    then have "lowerChar x \<in> set (toLowerCase tw)" by (simp add: toLowerCase_def)
    moreover from typeWords_small[OF assms]
    have "\<forall>p \<in> set (toLowerCase tw). in_range CHR ''a'' CHR ''z'' p" by (simp add: list_all_iff)
    ultimately have p: "in_range CHR ''a'' CHR ''z'' (lowerChar x)" by blast
    from lowerChar_eq_small[OF p, of x] have "x = lowerChar x \<or> x = upperAscii (lowerChar x)"
      by simp
    then show "isWordChar x"
    proof
      assume "x = lowerChar x"
      with p show ?thesis by (simp add: isWordChar_def)
    next
      assume u: "x = upperAscii (lowerChar x)"
      from p have q: "97 \<le> charCode (lowerChar x)" "charCode (lowerChar x) \<le> 122"
        by (simp_all add: in_range_def charCode_table)
      then have lt: "charCode (lowerChar x) - 32 < 256" by arith
      have "charCode (upperAscii (lowerChar x)) = charCode (lowerChar x) - 32"
        using p lt by (simp add: upperAscii_def charCode_char_of)
      with u have "charCode x = charCode (lowerChar x) - 32" by simp
      with q have "65 \<le> charCode x \<and> charCode x \<le> 90" by arith
      then show ?thesis by (simp add: isWordChar_def in_range_def charCode_table)
    qed
  qed
qed

lemma rx_Cat_memD:
  "(p, c') \<in> set (rx ic (Cat e1 e2) q c) \<Longrightarrow>
     \<exists>l1 r1 c1. ((l1, r1), c1) \<in> set (rx ic e1 q c) \<and> (p, c') \<in> set (rx ic e2 (l1, r1) c1)"
  by (cases q) auto

lemma rx_Grp_memD:
  "((l', r'), c') \<in> set (rx ic (Grp k e) (l, r) c) \<Longrightarrow>
     \<exists>c1. ((l', r'), c1) \<in> set (rx ic e (l, r) c) \<and> c' = c1(k \<mapsto> drop (length l) l')"
  by auto

lemma rx_Bnd_memD:
  "((l', r'), c') \<in> set (rx ic Bnd (l, r) c) \<Longrightarrow>
     l' = l \<and> r' = r \<and> c' = c \<and> ((l \<noteq> [] \<and> isWordChar (last l)) \<noteq> (r \<noteq> [] \<and> isWordChar (hd r)))"
  by (auto split: if_splits)

lemma rx_Cls_memD:
  "((l', r'), c') \<in> set (rx ic (Cls cls) (l, r) c) \<Longrightarrow>
     \<exists>x. r = x # r' \<and> l' = l @ [x] \<and> class_mem ic cls x \<and> c' = c"
  by (auto split: list.splits if_splits)

text \<open>
  A match of the first pattern is a word that starts with a letter and does not go on
  to the left, white space, and a type word that does not go on to the right.
\<close>

lemma firstPattern_sound:
  assumes "((l', r'), c') \<in> set (rx True firstPattern (l, r) c)"
  shows "\<exists>w ws tw. l' = l @ w @ ws @ tw \<and> r = w @ ws @ tw @ r'
           \<and> w \<noteq> [] \<and> (\<forall>x \<in> set w. isWordChar x)
           \<and> ws \<noteq> [] \<and> (\<forall>x \<in> set ws. isSpace x)
           \<and> toLowerCase tw \<in> set typeWords
           \<and> (l = [] \<or> \<not> isWordChar (last l))
           \<and> (r' = [] \<or> \<not> isWordChar (hd r'))
           \<and> c' = c(1 \<mapsto> w, 2 \<mapsto> tw)"
proof -
  let ?R3 = "Cat (Grp 2 typeWord) Bnd"
  let ?R2 = "Cat (Rep 1 [Spc]) ?R3"
  let ?R1 = "Cat (Grp 1 identPattern) ?R2"
  from assms have "((l', r'), c') \<in> set (rx True (Cat Bnd ?R1) (l, r) c)"
    by (simp only: firstPattern_def)
  from rx_Cat_memD[OF this] obtain l0 r0 c0 where
    b0: "((l0, r0), c0) \<in> set (rx True Bnd (l, r) c)"
    and m1: "((l', r'), c') \<in> set (rx True ?R1 (l0, r0) c0)" by blast
  from rx_Bnd_memD[OF b0] have q0: "l0 = l" "r0 = r" "c0 = c"
    and bnd0: "(l \<noteq> [] \<and> isWordChar (last l)) \<noteq> (r \<noteq> [] \<and> isWordChar (hd r))" by simp_all
  from rx_Cat_memD[OF m1] obtain l1 r1 c1 where
    i1: "((l1, r1), c1) \<in> set (rx True (Grp 1 identPattern) (l0, r0) c0)"
    and m2: "((l', r'), c') \<in> set (rx True ?R2 (l1, r1) c1)" by blast
  from rx_Grp_memD[OF i1] obtain c1' where
    i2: "((l1, r1), c1') \<in> set (rx True identPattern (l0, r0) c0)"
    and c1: "c1 = c1'(1 \<mapsto> drop (length l0) l1)" by blast
  from i2 have "((l1, r1), c1') \<in> set (rx True (Cat (Cls upperClass) (Rep 0 wordClass)) (l0, r0) c0)"
    by (simp only: identPattern_def)
  from rx_Cat_memD[OF this] obtain la ra ca where
    a1: "((la, ra), ca) \<in> set (rx True (Cls upperClass) (l0, r0) c0)"
    and a2: "((l1, r1), c1') \<in> set (rx True (Rep 0 wordClass) (la, ra) ca)" by blast
  from rx_Cls_memD[OF a1] obtain x where x: "r0 = x # ra" "la = l0 @ [x]"
    "class_mem True upperClass x" "ca = c0" by blast
  from rx_Rep_mem[OF a2] obtain w0 where w0: "l1 = la @ w0" "ra = w0 @ r1"
    "\<forall>y \<in> set w0. class_mem True wordClass y" "c1' = ca" by blast
  define w where "w = x # w0"
  have wx: "isWordChar x" using class_mem_upperClass_True[OF x(3)] by (rule isLetter_word)
  have w: "l1 = l @ w" "r = w @ r1" "w \<noteq> []" "\<forall>y \<in> set w. isWordChar y"
    using w0 x q0 wx by (simp_all add: w_def class_mem_wordClass)
  have c1w: "c1 = c(1 \<mapsto> w)" using c1 w0(4) x(4) q0 w(1) by simp
  from rx_Cat_memD[OF m2] obtain l2 r2 c2 where
    s1: "((l2, r2), c2) \<in> set (rx True (Rep 1 [Spc]) (l1, r1) c1)"
    and m3: "((l', r'), c') \<in> set (rx True ?R3 (l2, r2) c2)" by blast
  from rx_Rep_mem[OF s1] obtain ws where ws: "l2 = l1 @ ws" "r1 = ws @ r2"
    "1 \<le> length ws" "\<forall>y \<in> set ws. class_mem True [Spc] y" "c2 = c1" by blast
  from rx_Cat_memD[OF m3] obtain l3 r3 c3 where
    t1: "((l3, r3), c3) \<in> set (rx True (Grp 2 typeWord) (l2, r2) c2)"
    and b1: "((l', r'), c') \<in> set (rx True Bnd (l3, r3) c3)" by blast
  from rx_Grp_memD[OF t1] obtain c3' where
    t2: "((l3, r3), c3') \<in> set (rx True typeWord (l2, r2) c2)"
    and c3: "c3 = c3'(2 \<mapsto> drop (length l2) l3)" by blast
  from rx_typeWord_mem[OF t2] obtain tw where tw: "l3 = l2 @ tw" "r2 = tw @ r3"
    "toLowerCase tw \<in> set typeWords" "c3' = c2" by blast
  from rx_Bnd_memD[OF b1] have q3: "l' = l3" "r' = r3" "c' = c3"
    and bnd1: "(l3 \<noteq> [] \<and> isWordChar (last l3)) \<noteq> (r3 \<noteq> [] \<and> isWordChar (hd r3))" by simp_all
  have l': "l' = l @ w @ ws @ tw" using q3 tw(1) ws(1) w(1) by simp
  have r': "r = w @ ws @ tw @ r'" using q3 tw(2) ws(2) w(2) by simp
  have c': "c' = c(1 \<mapsto> w, 2 \<mapsto> tw)" using q3(3) c3 tw(1,4) ws(5) c1w by simp
  from typeWord_letters[OF tw(3)] have twl: "tw \<noteq> []" "isWordChar (last tw)" by simp_all
  then have "l3 \<noteq> [] \<and> isWordChar (last l3)" using tw(1) by simp
  with bnd1 q3 have e1: "r' = [] \<or> \<not> isWordChar (hd r')" by blast
  from w(2,3,4) have "r \<noteq> [] \<and> isWordChar (hd r)" by (cases w) auto
  with bnd0 have e0: "l = [] \<or> \<not> isWordChar (last l)" by blast
  from ws(3,4) have wss: "ws \<noteq> []" "\<forall>y \<in> set ws. isSpace y" by (auto simp: class_mem_Spc)
  from l' r' w(3,4) wss tw(3) e0 e1 c' show ?thesis by blast
qed

subsection \<open>The match at a name followed by \<open>class\<close>\<close>

lemma rx_Cat_Nil: "rx ic e1 q c = [] \<Longrightarrow> rx ic (Cat e1 e2) q c = []"
  by (cases q) simp

lemma rx_Grp_Nil: "rx ic e q c = [] \<Longrightarrow> rx ic (Grp k e) q c = []"
  by (cases q) simp

lemma rx_Bnd_cat:
  "rx ic (Cat Bnd e) (l, r) c =
     (if (l \<noteq> [] \<and> isWordChar (last l)) \<noteq> (r \<noteq> [] \<and> isWordChar (hd r)) then rx ic e (l, r) c else [])"
  by auto

lemma space_after_word:
  assumes "r' \<noteq> []" and "isWordChar (hd r')"
  shows "rx True (Cat (Rep 1 [Spc]) e3) (l', r') c' = []"
proof -
  from assms have "takeWhile isSpace r' = []" by (cases r') (auto dest: word_not_space)
  then have "length (takeWhile (class_mem True [Spc]) r') < 1" by (simp add: class_mem_Spc)
  from rx_rep_nil[OF this] show ?thesis by (rule rx_Cat_Nil)
qed

lemma typeWord_after_space:
  assumes "r' \<noteq> []" and "isSpace (hd r')"
  shows "rx True (Cat (Grp 2 typeWord) Bnd) (l', r') c' = []"
proof -
  have "rx True typeWord (l', r') c' = []"
  proof (cases "rx True typeWord (l', r') c'")
    case (Cons a list)
    obtain l2 r2 c2 where a: "a = ((l2, r2), c2)" by (metis surj_pair)
    with Cons have "((l2, r2), c2) \<in> set (rx True typeWord (l', r') c')" by simp
    from rx_typeWord_mem[OF this] obtain tw where tw: "r' = tw @ r2" "toLowerCase tw \<in> set typeWords"
      by blast
    from typeWord_letters[OF tw(2)] have "tw \<noteq> []" "isWordChar (hd tw)" by simp_all
    with tw(1) have "isWordChar (hd r')" by simp
    with assms(2) word_not_space show ?thesis by blast
  qed simp
  then have "rx True (Grp 2 typeWord) (l', r') c' = []" by (rule rx_Grp_Nil)
  then show ?thesis by (rule rx_Cat_Nil)
qed

lemma rx_name_cat:
  assumes "\<And>l' r' c'. r' \<noteq> [] \<Longrightarrow> class_mem ic cls2 (hd r') \<Longrightarrow> rx ic e2 (l', r') c' = []"
  shows "rx ic (Cat (Grp k (Cat (Cls cls1) (Rep 0 cls2))) e2) (l, x # xs) c =
     (if class_mem ic cls1 x
      then rx ic e2 (l @ x # takeWhile (class_mem ic cls2) xs, dropWhile (class_mem ic cls2) xs)
             (c(k \<mapsto> x # takeWhile (class_mem ic cls2) xs))
      else [])"
proof (cases "class_mem ic cls1 x")
  case False
  then show ?thesis by simp
next
  case True
  let ?P = "class_mem ic cls2"
  let ?G = "\<lambda>p. rx ic e2 p (c(k \<mapsto> drop (length l) (fst p)))"
  have g: "?G (l', r') = []" if "r' \<noteq> []" "?P (hd r')" for l' r'
    using assms[OF that] by simp
  have "filter (\<lambda>p. Suc (length l) \<le> length (fst p)) (greedy ?P (l @ [x]) xs) = greedy ?P (l @ [x]) xs"
    unfolding filter_id_conv using greedy_span[of _ _ ?P "l @ [x]" xs] by fastforce
  then have "rx ic (Cat (Grp k (Cat (Cls cls1) (Rep 0 cls2))) e2) (l, x # xs) c =
      concat (map ?G (greedy ?P (l @ [x]) xs))"
    using True by (simp add: comp_def case_prod_unfold)
  also have "\<dots> = ?G ((l @ [x]) @ takeWhile ?P xs, dropWhile ?P xs)"
    by (rule greedy_concat) (use g in auto)
  finally show ?thesis using True by simp
qed

lemma takeWhile_run: "\<forall>x \<in> set ns. P x \<Longrightarrow> \<not> P y \<Longrightarrow> takeWhile P (ns @ y # zs) = ns"
  by (induction ns) auto

lemma dropWhile_run: "\<forall>x \<in> set ns. P x \<Longrightarrow> \<not> P y \<Longrightarrow> dropWhile P (ns @ y # zs) = y # zs"
  by (induction ns) auto

lemma class_head:
  assumes "post = [] \<or> \<not> isWordChar (hd post)"
  shows "\<exists>t. rx True (Cat (Grp 2 typeWord) Bnd) (l, ''class'' @ post) c =
           ((l @ ''class'', post), c(2 \<mapsto> ''class'')) # t"
proof -
  have w: "isWordChar CHR ''s''" by (simp add: isWordChar_def in_range_def charCode_table)
  have m: "lit_match True ''class'' (''class'' @ post)" by simp
  have "\<exists>t. rx True typeWord (l, ''class'' @ post) c = ((l @ ''class'', post), c) # t"
    unfolding typeWord_def using m by (simp del: lit_match.simps)
  then obtain t where "rx True typeWord (l, ''class'' @ post) c = ((l @ ''class'', post), c) # t"
    by blast
  then have "rx True (Cat (Grp 2 typeWord) Bnd) (l, ''class'' @ post) c =
      rx True Bnd (l @ ''class'', post) (c(2 \<mapsto> ''class'')) @
      concat (map (\<lambda>(p, c'). rx True Bnd p c')
        (map (\<lambda>((l', r'), c'). ((l', r'), c'(2 \<mapsto> drop (length l) l'))) t))"
    by simp
  moreover have "rx True Bnd (l @ ''class'', post) (c(2 \<mapsto> ''class'')) =
      [((l @ ''class'', post), c(2 \<mapsto> ''class''))]"
    using assms w by auto
  ultimately show ?thesis by simp
qed

lemma firstPattern_head:
  assumes "in_range CHR ''A'' CHR ''Z'' n0" and "\<forall>x \<in> set ns. isWordChar x"
    and "l = [] \<or> \<not> isWordChar (last l)" and "post = [] \<or> \<not> isWordChar (hd post)"
  shows "\<exists>t. rx True firstPattern (l, (n0 # ns) @ '' class'' @ post) c =
           ((l @ (n0 # ns) @ '' class'', post), c(1 \<mapsto> n0 # ns, 2 \<mapsto> ''class'')) # t"
proof -
  let ?R3 = "Cat (Grp 2 typeWord) Bnd"
  let ?R2 = "Cat (Rep 1 [Spc]) ?R3"
  let ?N = "(n0 # ns) @ '' class'' @ post"
  have n0: "isWordChar n0" using assms(1) by (simp add: isWordChar_def)
  have sp: "isSpace CHR '' ''" "\<not> isWordChar CHR '' ''" "\<not> isSpace CHR ''c''"
    by (simp_all add: isSpace_def isWordChar_def in_range_def charCode_table)
  have 0: "rx True firstPattern (l, ?N) c = rx True (Cat (Grp 1 identPattern) ?R2) (l, ?N) c"
    unfolding firstPattern_def rx_Bnd_cat using assms(3) n0 by auto
  have tk: "takeWhile isWordChar (ns @ '' class'' @ post) = ns"
    and dr: "dropWhile isWordChar (ns @ '' class'' @ post) = '' class'' @ post"
    using takeWhile_run[OF assms(2) sp(2), of "''class'' @ post"]
      dropWhile_run[OF assms(2) sp(2), of "''class'' @ post"] by simp_all
  have pre1: "rx True ?R2 (l', r') c' = []" if "r' \<noteq> []" "class_mem True wordClass (hd r')" for l' r' c'
  proof -
    from that(2) have "isWordChar (hd r')" by (simp only: class_mem_wordClass)
    with that(1) show ?thesis by (rule space_after_word)
  qed
  have up: "class_mem True upperClass n0" using assms(1) by (rule class_mem_upperClass_upper)
  have "rx True (Cat (Grp 1 (Cat (Cls upperClass) (Rep 0 wordClass))) ?R2) (l, n0 # (ns @ '' class'' @ post)) c
      = (if class_mem True upperClass n0
         then rx True ?R2 (l @ n0 # takeWhile (class_mem True wordClass) (ns @ '' class'' @ post),
                dropWhile (class_mem True wordClass) (ns @ '' class'' @ post))
                (c(1 \<mapsto> n0 # takeWhile (class_mem True wordClass) (ns @ '' class'' @ post)))
         else [])"
    by (rule rx_name_cat, rule pre1)
  then have 1: "rx True (Cat (Grp 1 (Cat (Cls upperClass) (Rep 0 wordClass))) ?R2) (l, n0 # (ns @ '' class'' @ post)) c
      = rx True ?R2 (l @ n0 # ns, '' class'' @ post) (c(1 \<mapsto> n0 # ns))"
    using up by (simp only: class_mem_wordClass tk dr if_True)
  have pre2: "rx True ?R3 (l', r') c' = []" if "r' \<noteq> []" "class_mem True [Spc] (hd r')" for l' r' c'
  proof -
    from that(2) have "isSpace (hd r')" by (simp only: class_mem_Spc)
    with that(1) show ?thesis by (rule typeWord_after_space)
  qed
  have "rx True (Cat (Rep 1 [Spc]) ?R3) (l @ n0 # ns, '' class'' @ post) (c(1 \<mapsto> n0 # ns))
      = (if 1 \<le> length (takeWhile (class_mem True [Spc]) ('' class'' @ post))
         then rx True ?R3 ((l @ n0 # ns) @ takeWhile (class_mem True [Spc]) ('' class'' @ post),
                dropWhile (class_mem True [Spc]) ('' class'' @ post)) (c(1 \<mapsto> n0 # ns))
         else [])"
    by (rule rx_rep_cat, rule pre2)
  moreover have "takeWhile isSpace ('' class'' @ post) = '' ''"
    "dropWhile isSpace ('' class'' @ post) = ''class'' @ post" using sp by simp_all
  ultimately have 2: "rx True ?R2 (l @ n0 # ns, '' class'' @ post) (c(1 \<mapsto> n0 # ns))
      = rx True ?R3 ((l @ n0 # ns) @ '' '', ''class'' @ post) (c(1 \<mapsto> n0 # ns))"
    by (simp add: class_mem_Spc del: rx.simps)
  from class_head[OF assms(4), of "(l @ n0 # ns) @ '' ''" "c(1 \<mapsto> n0 # ns)"]
  obtain t where 3: "rx True ?R3 ((l @ n0 # ns) @ '' '', ''class'' @ post) (c(1 \<mapsto> n0 # ns)) =
      ((((l @ n0 # ns) @ '' '') @ ''class'', post), c(1 \<mapsto> n0 # ns, 2 \<mapsto> ''class'')) # t"
    by blast
  have "rx True firstPattern (l, ?N) c =
      ((l @ (n0 # ns) @ '' class'', post), c(1 \<mapsto> n0 # ns, 2 \<mapsto> ''class'')) # t"
    using 0 1 2 3 by (simp add: identPattern_def del: rx.simps)
  then show ?thesis by blast
qed

subsection \<open>Where a search stops\<close>

lemma search_NoneD:
  "search ic e l r0 = None \<Longrightarrow> r0 = u1 @ u2 \<Longrightarrow> rx ic e (l @ u1, u2) Map.empty = []"
proof (induction r0 arbitrary: l u1)
  case Nil
  then show ?case by (auto split: list.splits)
next
  case (Cons x xs)
  from Cons.prems(1) have a: "rx ic e (l, x # xs) Map.empty = []"
    and b: "search ic e (l @ [x]) xs = None" by (auto split: list.splits)
  show ?case
  proof (cases u1)
    case Nil
    with Cons.prems(2) a show ?thesis by simp
  next
    case (Cons y u1')
    with Cons.prems(2) have "y = x" "xs = u1' @ u2" by simp_all
    from Cons.IH[OF b this(2)] Cons \<open>y = x\<close> show ?thesis by simp
  qed
qed

text \<open>
  \<open>foundAt ic e l u1 u2 m\<close>: the search that starts after \<open>l\<close> in the text
  \<open>l @ u1 @ u2\<close> stops after \<open>u1\<close> with the match \<open>m\<close>, and no position before has a
  match.
\<close>

definition foundAt :: "bool \<Rightarrow> regex \<Rightarrow> string \<Rightarrow> string \<Rightarrow> string \<Rightarrow> rmatch \<Rightarrow> bool" where
  "foundAt ic e l u1 u2 m =
     (index m = length (l @ u1)
      \<and> (\<exists>l' r' c' t. rx ic e (l @ u1, u2) Map.empty = ((l', r'), c') # t
            \<and> lastIndex m = length l' \<and> groups m = c')
      \<and> (\<forall>v1 v2. u1 = v1 @ v2 \<and> v2 \<noteq> [] \<longrightarrow> rx ic e (l @ v1, v2 @ u2) Map.empty = []))"

lemma foundAt_here:
  assumes "rx ic e (l, r) Map.empty = ((l', r'), c') # t"
  shows "foundAt ic e l [] r \<lparr>index = length l, lastIndex = length l', groups = c'\<rparr>"
  unfolding foundAt_def using assms by simp

lemma foundAt_later:
  assumes "rx ic e (l, x # u1 @ u2) Map.empty = []" and "foundAt ic e (l @ [x]) u1 u2 m"
  shows "foundAt ic e l (x # u1) u2 m"
proof -
  from assms(2) have i: "index m = length (l @ x # u1)"
    and h: "\<exists>l' r' c' t. rx ic e (l @ x # u1, u2) Map.empty = ((l', r'), c') # t
            \<and> lastIndex m = length l' \<and> groups m = c'"
    and mi: "\<forall>v1 v2. u1 = v1 @ v2 \<and> v2 \<noteq> [] \<longrightarrow> rx ic e ((l @ [x]) @ v1, v2 @ u2) Map.empty = []"
    unfolding foundAt_def by simp_all
  have "rx ic e (l @ v1, v2 @ u2) Map.empty = []" if v: "x # u1 = v1 @ v2" "v2 \<noteq> []" for v1 v2
  proof (cases v1)
    case Nil
    with v have "v2 @ u2 = x # u1 @ u2" by simp
    with Nil assms(1) show ?thesis by simp
  next
    case (Cons y v1')
    with v have "y = x" "u1 = v1' @ v2" by simp_all
    with mi v(2) have "rx ic e ((l @ [x]) @ v1', v2 @ u2) Map.empty = []" by blast
    with Cons \<open>y = x\<close> show ?thesis by simp
  qed
  with i h show ?thesis unfolding foundAt_def by blast
qed

lemma search_SomeD:
  "search ic e l r0 = Some m \<Longrightarrow> \<exists>u1 u2. r0 = u1 @ u2 \<and> foundAt ic e l u1 u2 m"
proof (induction r0 arbitrary: l)
  case Nil
  then obtain l' r' c' t where h: "rx ic e (l, []) Map.empty = ((l', r'), c') # t"
    and m: "m = \<lparr>index = length l, lastIndex = length l', groups = c'\<rparr>"
    by (auto split: list.splits)
  from foundAt_here[OF h] m have "[] = [] @ [] \<and> foundAt ic e l [] [] m" by simp
  then show ?case by (intro exI)
next
  case (Cons x xs)
  show ?case
  proof (cases "rx ic e (l, x # xs) Map.empty")
    case Nil
    with Cons.prems have "search ic e (l @ [x]) xs = Some m" by simp
    from Cons.IH[OF this] obtain u1 u2 where u: "xs = u1 @ u2" "foundAt ic e (l @ [x]) u1 u2 m"
      by blast
    from Nil u(1) have "rx ic e (l, x # u1 @ u2) Map.empty = []" by simp
    from foundAt_later[OF this u(2)] u(1)
    have "x # xs = (x # u1) @ u2 \<and> foundAt ic e l (x # u1) u2 m" by simp
    then show ?thesis by (intro exI)
  next
    case (Cons h t)
    obtain l' r' c' where h: "h = ((l', r'), c')" by (metis surj_pair)
    with Cons Cons.prems have m: "m = \<lparr>index = length l, lastIndex = length l', groups = c'\<rparr>"
      by simp
    from Cons h have "rx ic e (l, x # xs) Map.empty = ((l', r'), c') # t" by simp
    from foundAt_here[OF this] m
    have "x # xs = [] @ (x # xs) \<and> foundAt ic e l [] (x # xs) m" by simp
    then show ?thesis by (intro exI)
  qed
qed

subsection \<open>An earlier match ends before the name\<close>

lemma typeWord_is_name:
  assumes e: "(n0 # ns) @ '' class'' @ post = tw @ r'"
    and nw: "isWordChar n0" "\<forall>x \<in> set ns. isWordChar x"
    and tw: "toLowerCase tw \<in> set typeWords"
    and r': "r' = [] \<or> \<not> isWordChar (hd r')"
  shows "tw = n0 # ns"
proof -
  have sp: "\<not> isWordChar CHR '' ''" by (simp add: isWordChar_def in_range_def charCode_table)
  from typeWord_letters[OF tw] have twl: "\<forall>x \<in> set tw. isWordChar x" by simp
  from e consider xs where "n0 # ns = tw @ xs" "r' = xs @ '' class'' @ post"
    | xs where "(n0 # ns) @ xs = tw" "'' class'' @ post = xs @ r'"
    unfolding append_eq_append_conv2 by blast
  then show ?thesis
  proof cases
    case 1
    show ?thesis
    proof (cases xs)
      case Nil
      with 1 show ?thesis by simp
    next
      case (Cons y ys)
      with 1(1) have "y \<in> set (n0 # ns)" by (metis in_set_conv_decomp)
      with nw have "isWordChar y" by auto
      moreover from 1(2) Cons have "r' \<noteq> []" "hd r' = y" by simp_all
      ultimately show ?thesis using r' by simp
    qed
  next
    case 2
    show ?thesis
    proof (cases xs)
      case Nil
      with 2 show ?thesis by simp
    next
      case (Cons y ys)
      with 2(2) have "y = CHR '' ''" by simp
      moreover from 2(1) Cons have "y \<in> set tw" by auto
      ultimately show ?thesis using twl sp by blast
    qed
  qed
qed

lemma no_overlap:
  assumes e: "us @ (n0 # ns) @ '' class'' @ post = w @ ws @ tw @ r'"
    and us: "us \<noteq> []" "\<not> isWordChar (last us)"
    and nw: "isWordChar n0" "\<forall>x \<in> set ns. isWordChar x"
    and w: "\<forall>x \<in> set w. isWordChar x"
    and ws: "\<forall>x \<in> set ws. isSpace x"
    and tw: "toLowerCase tw \<in> set typeWords"
    and r': "r' = [] \<or> \<not> isWordChar (hd r')"
    and nt: "toLowerCase (n0 # ns) \<notin> set typeWords"
  shows "length (w @ ws @ tw) \<le> length us"
proof (rule ccontr)
  assume "\<not> length (w @ ws @ tw) \<le> length us"
  then have long: "length us < length (w @ ws @ tw)" by simp
  let ?N = "(n0 # ns) @ '' class'' @ post"
  from typeWord_letters[OF tw] have twl: "\<forall>x \<in> set tw. isWordChar x" by simp
  from e have "us @ ?N = (w @ ws @ tw) @ r'" by simp
  then consider zs where "us = (w @ ws @ tw) @ zs"
    | zs where "us @ zs = w @ ws @ tw" "?N = zs @ r'"
    unfolding append_eq_append_conv2 by blast
  then obtain zs where z: "us @ zs = w @ ws @ tw" "?N = zs @ r'"
  proof cases
    case 1
    then have "length (w @ ws @ tw) \<le> length us" by simp
    with long show ?thesis by simp
  next
    case 2
    with that show ?thesis by blast
  qed
  from z(1) long have zne: "zs \<noteq> []" by auto
  with z(2) have hz: "hd zs = n0" by (cases zs) simp_all
  have twz: "tw \<noteq> zs"
  proof
    assume "tw = zs"
    with z(2) have "?N = tw @ r'" by simp
    from typeWord_is_name[OF this nw tw r'] tw nt show False by simp
  qed
  from z(1) have "us @ zs = (w @ ws) @ tw" by simp
  then consider ys where "us = (w @ ws) @ ys" "tw = ys @ zs"
    | ys where "us @ ys = w @ ws" "zs = ys @ tw"
    unfolding append_eq_append_conv2 by blast
  then show False
  proof cases
    case 1
    show False
    proof (cases "ys = []")
      case True
      with 1(2) twz show False by simp
    next
      case False
      with 1(1) have "last us = last ys" by simp
      moreover from False 1(2) have "last ys \<in> set tw" by simp
      ultimately show False using twl us(2) by simp
    qed
  next
    case 2
    show False
    proof (cases "ys = []")
      case True
      with 2(2) twz show False by simp
    next
      case False
      with 2(2) hz have hy: "hd ys = n0" by simp
      from 2(1) consider xs where "us = w @ xs" "ws = xs @ ys"
        | xs where "us @ xs = w" "ys = xs @ ws"
        unfolding append_eq_append_conv2 by blast
      then show False
      proof cases
        case 1
        with False have "hd ys \<in> set ws" by simp
        with ws hy have "isSpace n0" by simp
        with nw(1) word_not_space show False by blast
      next
        case 2
        with us(1) have "last us \<in> set w" by auto
        with w us(2) show False by simp
      qed
    qed
  qed
qed

subsection \<open>The shape of a valid name\<close>

lemma rx_Bol_memD: "((l', r'), c') \<in> set (rx ic Bol (l, r) c) \<Longrightarrow> l = [] \<and> l' = [] \<and> r' = r \<and> c' = c"
  by (auto split: if_splits)

lemma rx_Eol_memD: "((l', r'), c') \<in> set (rx ic Eol (l, r) c) \<Longrightarrow> r = [] \<and> l' = l \<and> r' = [] \<and> c' = c"
  by (auto split: if_splits)

lemma namePattern_shape:
  assumes "test False namePattern name"
  shows "\<exists>n0 ns. name = n0 # ns \<and> in_range CHR ''A'' CHR ''Z'' n0 \<and> (\<forall>x \<in> set ns. isWordChar x)"
proof -
  from assms obtain m where "search False namePattern [] name = Some m"
    by (auto simp: test_def exec_from_def)
  from search_SomeD[OF this] obtain u1 u2 where u: "name = u1 @ u2"
    and f: "foundAt False namePattern [] u1 u2 m" by blast
  from f obtain l' r' c' t where "rx False namePattern ([] @ u1, u2) Map.empty = ((l', r'), c') # t"
    unfolding foundAt_def by blast
  then have "((l', r'), c') \<in> set (rx False (Cat Bol (Cat identPattern Eol)) (u1, u2) Map.empty)"
    by (simp add: namePattern_def)
  from rx_Cat_memD[OF this] obtain l0 r0 c0 where
    b: "((l0, r0), c0) \<in> set (rx False Bol (u1, u2) Map.empty)"
    and m1: "((l', r'), c') \<in> set (rx False (Cat identPattern Eol) (l0, r0) c0)" by blast
  from rx_Bol_memD[OF b] have q0: "u1 = []" "l0 = []" "r0 = u2" by simp_all
  from rx_Cat_memD[OF m1] obtain l1 r1 c1 where
    i1: "((l1, r1), c1) \<in> set (rx False identPattern (l0, r0) c0)"
    and e1: "((l', r'), c') \<in> set (rx False Eol (l1, r1) c1)" by blast
  from rx_Eol_memD[OF e1] have r1: "r1 = []" by simp
  from i1 have "((l1, r1), c1) \<in> set (rx False (Cat (Cls upperClass) (Rep 0 wordClass)) (l0, r0) c0)"
    by (simp only: identPattern_def)
  from rx_Cat_memD[OF this] obtain la ra ca where
    a1: "((la, ra), ca) \<in> set (rx False (Cls upperClass) (l0, r0) c0)"
    and a2: "((l1, r1), c1) \<in> set (rx False (Rep 0 wordClass) (la, ra) ca)" by blast
  from rx_Cls_memD[OF a1] obtain x where x: "r0 = x # ra" "class_mem False upperClass x" by blast
  from rx_Rep_mem[OF a2] obtain w0 where w0: "ra = w0 @ r1"
    "\<forall>y \<in> set w0. class_mem False wordClass y" by blast
  from u q0 x(1) w0(1) r1 have "name = x # w0" by simp
  moreover from x(2) have "in_range CHR ''A'' CHR ''Z'' x" by (simp add: class_mem_upperClass_False)
  moreover from w0(2) have "\<forall>y \<in> set w0. isWordChar y" by (simp add: class_mem_wordClass)
  ultimately show ?thesis by blast
qed

lemma accepted_class:
  assumes "validName (Some name)" and "groups m 1 = Some name" and "groups m 2 = Some ''class''"
  shows "accepted m = Some (name, TypeName ''ApexClass'')"
proof -
  from assms(1) have ne: "name \<noteq> []" by (simp add: validName_def)
  have l: "toLowerCase ''class'' = ''class''"
    by (simp add: toLowerCase_def lowerChar_def in_range_def charCode_table)
  have "typeMap_get ''class'' = Some (TypeName ''ApexClass'')"
    by (simp add: typeMap_get_def typeMap_def)
  with ne assms(2,3) l have "nameAndType m = Some (Some name, TypeName ''ApexClass'')"
    by (simp add: nameAndType_def)
  with assms(1) show ?thesis by (simp add: accepted_def)
qed

subsection \<open>The loop over the matches of the first pattern reaches the name\<close>

lemma firstPattern_nonnull: "nonnull firstPattern"
  by (simp add: firstPattern_def identPattern_def typeWord_def)

lemma upper_word: "in_range CHR ''A'' CHR ''Z'' x \<Longrightarrow> isWordChar x"
  by (simp add: isWordChar_def)

lemma first_pattern_finds:
  assumes n0: "in_range CHR ''A'' CHR ''Z'' n0" and ns: "\<forall>x \<in> set ns. isWordChar x"
    and pre: "pre = [] \<or> \<not> isWordChar (last pre)"
    and post: "post = [] \<or> \<not> isWordChar (hd post)"
    and nt: "toLowerCase (n0 # ns) \<notin> set typeWords"
  shows "i \<le> length pre \<Longrightarrow>
         exec_all True firstPattern (pre @ (n0 # ns) @ '' class'' @ post) i = Some ms \<Longrightarrow>
         \<exists>m \<in> set ms. groups m 1 = Some (n0 # ns) \<and> groups m 2 = Some ''class''"
proof (induction "length pre - i" arbitrary: i ms rule: less_induct)
  case less
  let ?N = "(n0 # ns) @ '' class'' @ post"
  let ?d = "pre @ ?N"
  from firstPattern_head[OF n0 ns pre post, of Map.empty] obtain t0 where
    hd: "rx True firstPattern (pre, ?N) Map.empty =
           ((pre @ (n0 # ns) @ '' class'', post), [1 \<mapsto> n0 # ns, 2 \<mapsto> ''class'']) # t0"
    by blast
  from less.prems(1) have tk: "take i ?d = take i pre" and dr: "drop i ?d = drop i pre @ ?N"
    by simp_all
  have ef: "exec_from True firstPattern ?d i = search True firstPattern (take i pre) (drop i pre @ ?N)"
    using less.prems(1) tk dr by (simp add: exec_from_def)
  show ?case
  proof (cases "exec_from True firstPattern ?d i")
    case None
    with ef have "search True firstPattern (take i pre) (drop i pre @ ?N) = None" by simp
    from search_NoneD[OF this refl] have "rx True firstPattern (take i pre @ drop i pre, ?N) Map.empty = []" .
    with hd show ?thesis by simp
  next
    case (Some m)
    from exec_from_advance[OF firstPattern_nonnull Some] have adv: "i < lastIndex m" .
    from exec_all_total[OF firstPattern_nonnull] obtain ms' where
      ms': "exec_all True firstPattern ?d (lastIndex m) = Some ms'" by blast
    have "exec_all True firstPattern ?d i = Some (m # ms')"
      using Some adv ms' by (subst exec_all.simps) simp
    with less.prems(2) have ms: "ms = m # ms'" by simp
    from Some ef have "search True firstPattern (take i pre) (drop i pre @ ?N) = Some m" by simp
    from search_SomeD[OF this] obtain u1 u2 where
      u: "drop i pre @ ?N = u1 @ u2" and f: "foundAt True firstPattern (take i pre) u1 u2 m"
      by blast
    from f have ix: "index m = length (take i pre @ u1)"
      and h: "\<exists>l' r' c' t. rx True firstPattern (take i pre @ u1, u2) Map.empty = ((l', r'), c') # t
              \<and> lastIndex m = length l' \<and> groups m = c'"
      and mi: "\<forall>v1 v2. u1 = v1 @ v2 \<and> v2 \<noteq> [] \<longrightarrow>
                 rx True firstPattern (take i pre @ v1, v2 @ u2) Map.empty = []"
      unfolding foundAt_def by simp_all
    from h obtain l' r' c' t where
      rxm: "rx True firstPattern (take i pre @ u1, u2) Map.empty = ((l', r'), c') # t"
      and li: "lastIndex m = length l'" and g: "groups m = c'" by blast
    from u consider xs where "drop i pre = u1 @ xs" "u2 = xs @ ?N"
      | xs where "drop i pre @ xs = u1" "?N = xs @ u2"
      unfolding append_eq_append_conv2 by blast
    then show ?thesis
    proof cases
      case 1
      show ?thesis
      proof (cases "xs = []")
        case True
        with 1 have "drop i pre = u1" "u2 = ?N" by simp_all
        then have "take i pre @ u1 = pre" "u2 = ?N" by (metis append_take_drop_id, simp)
        with rxm hd have "c' = [1 \<mapsto> n0 # ns, 2 \<mapsto> ''class'']" by simp
        with g have "groups m 1 = Some (n0 # ns) \<and> groups m 2 = Some ''class''" by simp
        with ms show ?thesis by simp
      next
        case False
        from 1(1) have p: "pre = (take i pre @ u1) @ xs" by (metis append_take_drop_id append_assoc)
        with False have pne: "pre \<noteq> []" by auto
        from p False have "last pre = last xs" by (metis last_appendR)
        with pre pne have lx: "\<not> isWordChar (last xs)" by simp
        have "((l', r'), c') \<in> set (rx True firstPattern (take i pre @ u1, u2) Map.empty)"
          using rxm by simp
        from firstPattern_sound[OF this] obtain w ws tw where
          l': "l' = (take i pre @ u1) @ w @ ws @ tw" and u2: "u2 = w @ ws @ tw @ r'"
          and w: "\<forall>x \<in> set w. isWordChar x" and ws: "\<forall>x \<in> set ws. isSpace x"
          and tw: "toLowerCase tw \<in> set typeWords"
          and r': "r' = [] \<or> \<not> isWordChar (hd r')" by blast
        from 1(2) u2 have e: "xs @ (n0 # ns) @ '' class'' @ post = w @ ws @ tw @ r'" by simp
        from no_overlap[OF e False lx upper_word[OF n0] ns w ws tw r' nt]
        have "length (w @ ws @ tw) \<le> length xs" .
        with l' li have "lastIndex m \<le> length (take i pre @ u1) + length xs" by simp
        also from p have "\<dots> = length pre" by (metis length_append)
        finally have le: "lastIndex m \<le> length pre" .
        from adv le have "length pre - lastIndex m < length pre - i" by arith
        from less.hyps[OF this le ms'] ms show ?thesis by auto
      qed
    next
      case 2
      show ?thesis
      proof (cases "xs = []")
        case True
        with 2 have "drop i pre = u1" "u2 = ?N" by simp_all
        then have "take i pre @ u1 = pre" "u2 = ?N" by (metis append_take_drop_id, simp)
        with rxm hd have "c' = [1 \<mapsto> n0 # ns, 2 \<mapsto> ''class'']" by simp
        with g have "groups m 1 = Some (n0 # ns) \<and> groups m 2 = Some ''class''" by simp
        with ms show ?thesis by simp
      next
        case False
        from 2(1) False mi have "rx True firstPattern (take i pre @ drop i pre, xs @ u2) Map.empty = []"
          by blast
        with 2(2) hd show ?thesis by simp
      qed
    qed
  qed
qed

subsection \<open>The pair that the parser writes for the name\<close>

lemma name_class_written:
  assumes v: "validName (Some name)" and nt: "toLowerCase name \<notin> set typeWords"
    and pre: "pre = [] \<or> \<not> isWordChar (last pre)"
    and post: "post = [] \<or> \<not> isWordChar (hd post)"
    and ws: "acceptedWrites (pre @ name @ '' class'' @ post) = Some ws"
  shows "(name, TypeName ''ApexClass'') \<in> set ws"
proof -
  let ?d = "pre @ name @ '' class'' @ post"
  from v have "test False namePattern name" by (simp add: validName_def)
  from namePattern_shape[OF this] obtain n0 ns where
    n: "name = n0 # ns" and n0: "in_range CHR ''A'' CHR ''Z'' n0"
    and ns: "\<forall>x \<in> set ns. isWordChar x" by blast
  from componentPatterns_first obtain rest where cp: "componentPatterns = (True, firstPattern) # rest"
    by blast
  from exec_all_total[OF firstPattern_nonnull] obtain ms where
    ms: "exec_all True firstPattern ?d 0 = Some ms" by blast
  from ws have "patternWrites ((True, firstPattern) # rest) ?d = Some ws"
    unfolding acceptedWrites_def cp .
  with ms obtain ws' where w: "ws = List.map_filter accepted ms @ ws'"
    by (auto split: option.splits)
  from nt n have nt': "toLowerCase (n0 # ns) \<notin> set typeWords" by simp
  from ms n have "exec_all True firstPattern (pre @ (n0 # ns) @ '' class'' @ post) 0 = Some ms"
    by simp
  from first_pattern_finds[OF n0 ns pre post nt' _ this] obtain m where
    m: "m \<in> set ms" "groups m 1 = Some (n0 # ns)" "groups m 2 = Some ''class''" by auto
  from m(2) n have "groups m 1 = Some name" by simp
  from accepted_class[OF v this m(3)] have "accepted m = Some (name, TypeName ''ApexClass'')" .
  with m(1) have "(name, TypeName ''ApexClass'') \<in> set (List.map_filter accepted ms)"
    by (force simp: List.map_filter_def)
  with w show ?thesis by simp
qed

lemma lastWrite_written: "(name, ty) \<in> set ws \<Longrightarrow> \<exists>ty'. lastWrite ws name = Some ty'"
proof -
  assume "(name, ty) \<in> set ws"
  then have "name \<in> fst ` set (rev ws)" by force
  then have "map_of (rev ws) name \<noteq> None" by (simp add: map_of_eq_None_iff)
  then show ?thesis unfolding lastWrite_def by blast
qed

lemma lastWrite_mem: "lastWrite ws name = Some ty \<Longrightarrow> (name, ty) \<in> set ws"
  unfolding lastWrite_def by (drule map_of_SomeD) simp

section \<open>The calls of \<open>foundComponents.set\<close> in both passes\<close>

text \<open>
  The pair that the body of the loop of the fallback gives to \<open>foundComponents.set\<close> for
  one match, if it does; then the pairs of the whole loop, in the order of the calls.
\<close>

definition fallbackAccepted :: "string \<Rightarrow> rmatch \<Rightarrow> (string \<times> tvalue) option" where
  "fallbackAccepted description match =
     (case groups match 1 of
        None \<Rightarrow> None
      | Some name \<Rightarrow>
          if toLowerCase name \<notin> set excludeWords \<and> length name > 2 \<and> name \<notin> set fallbackNames
          then
            let beforeText = toLowerCase (substring description (index match - 20) (index match));
                afterText = toLowerCase (substring description (index match + length name)
                                           (index match + length name + 20));
                contextText = beforeText @ '' '' @ afterText;
                inferredType = firstIncluded typeMap contextText ''ApexClass''
            in Some (name, TypeName inferredType)
          else None)"

definition fallbackWrites :: "string \<Rightarrow> (string \<times> tvalue) list option" where
  "fallbackWrites description =
     (case exec_all False fallbackPattern description 0 of
        None \<Rightarrow> None
      | Some matches \<Rightarrow> Some (List.map_filter (fallbackAccepted description) matches))"

text \<open>
  All the calls of \<open>foundComponents.set\<close> of one run of the parser: those of the pass over
  the patterns, and, when the map is empty after it, those of the fallback.
\<close>

definition allWrites :: "string \<Rightarrow> (string \<times> tvalue) list option" where
  "allWrites description =
     (case acceptedWrites description of
        None \<Rightarrow> None
      | Some ws \<Rightarrow>
          if length (setAll [] ws) = 0
          then (case fallbackWrites description of None \<Rightarrow> None | Some ws' \<Rightarrow> Some (ws @ ws'))
          else Some ws)"

lemma processFallback_set:
  "processFallback d f m =
     (case fallbackAccepted d m of None \<Rightarrow> f | Some (name, ty) \<Rightarrow> map_set name ty f)"
  by (simp add: processFallback_def fallbackAccepted_def Let_def split: option.splits)

lemma foldl_processFallback:
  "foldl (processFallback d) f ms = setAll f (List.map_filter (fallbackAccepted d) ms)"
proof (induction ms arbitrary: f)
  case Nil
  show ?case by (simp add: setAll_def List.map_filter_simps)
next
  case (Cons m ms)
  show ?case
  proof (cases "fallbackAccepted d m")
    case None
    then show ?thesis using Cons.IH[of f] by (simp add: processFallback_set List.map_filter_simps)
  next
    case (Some w)
    obtain k v where w: "w = (k, v)" by (cases w)
    with Some Cons.IH[of "map_set k v f"] show ?thesis
      by (simp add: processFallback_set List.map_filter_simps setAll_def)
  qed
qed

lemma fallbackPass_writes: "fallbackPass d f = map_option (setAll f) (fallbackWrites d)"
  by (simp add: fallbackPass_def fallbackWrites_def foldl_processFallback split: option.splits)

lemma setAll_Nil_iff: "setAll [] ws = [] \<longleftrightarrow> ws = []"
proof
  assume e: "setAll [] ws = []"
  show "ws = []"
  proof (rule ccontr)
    assume "ws \<noteq> []"
    then obtain k v where "(k, v) \<in> set (rev ws)" by (cases ws) auto
    then have "k \<in> fst ` set (rev ws)" by force
    then have "map_of (rev ws) k \<noteq> None" by (simp add: map_of_eq_None_iff)
    moreover have "map_of (setAll [] ws) k = map_of (rev ws) k" by (simp add: setAll_map_of)
    ultimately show False using e by simp
  qed
next
  assume "ws = []"
  then show "setAll [] ws = []" by (simp add: setAll_def)
qed

lemma allWrites_total: "\<exists>ws. allWrites d = Some ws"
proof -
  obtain ws where ws: "acceptedWrites d = Some ws" using acceptedWrites_total by blast
  obtain f where "fallbackPass d [] = Some f" using fallbackPass_total by blast
  then obtain ws' where "fallbackWrites d = Some ws'" unfolding fallbackPass_writes by auto
  with ws show ?thesis by (simp add: allWrites_def)
qed

text \<open>What the parser returns, in terms of all the pairs written.\<close>

lemma parse_all_writes:
  assumes "allWrites d = Some ws"
  shows "parseChangesToCopadoFormat d =
           Some (if ws = [] then [unknownComponent (defaultAction d)]
                 else map (toChange (defaultAction d)) (setAll [] ws))"
proof -
  obtain ws1 where ws1: "acceptedWrites d = Some ws1" using acceptedWrites_total by blast
  then have pp: "patternPass d = Some (setAll [] ws1)" by (simp add: patternPass_writes)
  show ?thesis
  proof (cases "ws1 = []")
    case False
    then have ne: "setAll [] ws1 \<noteq> []" by (simp add: setAll_Nil_iff)
    with ws1 assms have "ws = ws1" by (simp add: allWrites_def)
    with parse_found[OF pp ne] False show ?thesis by simp
  next
    case True
    then have e: "setAll [] ws1 = []" by (simp add: setAll_Nil_iff)
    with ws1 assms True have fw: "fallbackWrites d = Some ws"
      by (auto simp: allWrites_def split: option.splits)
    then have fp: "fallbackPass d [] = Some (setAll [] ws)" by (simp add: fallbackPass_writes)
    from pp e have "patternPass d = Some []" by simp
    from parse_fallback[OF this fp] show ?thesis by (simp add: setAll_Nil_iff)
  qed
qed

lemma changes_last_write:
  assumes dk: "distinct (map fst f)" and mo: "map_of f name = Some ty"
  shows "(\<exists>!c. c \<in> set (map (toChange a) f) \<and> ch_n c = name)
         \<and> (\<forall>c \<in> set (map (toChange a) f). ch_n c = name \<longrightarrow> ch_t c = ty)"
proof -
  from mo have mem: "(name, ty) \<in> set f" by (rule map_of_SomeD)
  define c0 where "c0 = toChange a (name, ty)"
  have in1: "c0 \<in> set (map (toChange a) f)" using mem by (auto simp: c0_def)
  have n1: "ch_n c0 = name" and t1: "ch_t c0 = ty" by (simp_all add: toChange_def c0_def)
  have uniq: "c = c0" if "c \<in> set (map (toChange a) f)" "ch_n c = name" for c
  proof -
    from that(1) obtain kv where kv: "kv \<in> set f" and cc: "c = toChange a kv" by auto
    from that(2) cc have k: "fst kv = name" by (simp add: toChange_def)
    then have "(name, snd kv) \<in> set f" using kv by (metis prod.collapse)
    from map_of_is_SomeI[OF dk this] mo have "snd kv = ty" by simp
    with k have "kv = (name, ty)" by (metis prod.collapse)
    with cc show ?thesis by (simp add: c0_def)
  qed
  have 1: "\<exists>!c. c \<in> set (map (toChange a) f) \<and> ch_n c = name"
  proof (rule ex1I[of _ c0])
    show "c0 \<in> set (map (toChange a) f) \<and> ch_n c0 = name" using in1 n1 by simp
  next
    fix c assume "c \<in> set (map (toChange a) f) \<and> ch_n c = name"
    then show "c = c0" using uniq by blast
  qed
  have 2: "\<forall>c \<in> set (map (toChange a) f). ch_n c = name \<longrightarrow> ch_t c = ty"
  proof (intro ballI impI)
    fix c assume "c \<in> set (map (toChange a) f)" "ch_n c = name"
    then have "c = c0" by (rule uniq)
    then show "ch_t c = ty" using t1 by simp
  qed
  from 1 2 show ?thesis by blast
qed

lemma changes_written:
  assumes dk: "distinct (map fst f)" and c: "c \<in> set (map (toChange a) f)"
  shows "map_of f (ch_n c) = Some (ch_t c)"
proof -
  from c obtain kv where kv: "kv \<in> set f" and cc: "c = toChange a kv" by auto
  then have "(ch_n c, ch_t c) \<in> set f" by (simp add: toChange_def)
  from map_of_is_SomeI[OF dk this] show ?thesis .
qed

lemmas eval_writes = fallbackAccepted_def fallbackWrites_def allWrites_def acceptedWrites_def
  setAll_def

section \<open>The properties\<close>

text \<open>
  C8.  The view of a status depends on the lower-cased status alone.  \<open>completed\<close> and
  \<open>success\<close> give the green view of a completed job, with the message that the deployment
  completed; \<open>failed\<close> and \<open>error\<close> the red view of a failed one, with the message to check
  the error details; \<open>in progress\<close> and \<open>running\<close> the blue view of a running one, with the
  message to check again; \<open>not started\<close> and \<open>queued\<close> the yellow view of a queued one,
  with the message that the job will start; every other value the gray view of an unknown
  status, with the message to check the org.  The five messages differ from one another.
  So \<open>Success\<close> in any letter case is completed, and \<open>bogus\<close> is unknown.
\<close>

theorem status_classification:
  "statusSwitch status =
     (if toLowerCase status \<in> {''completed'', ''success''} then
        \<lparr>statusEmoji = [0x2705], statusColor = ''GREEN'',
         nextSteps = 0x1F389 #
           ascii '' Deployment completed successfully! Check your destination org.''\<rparr>
      else if toLowerCase status \<in> {''failed'', ''error''} then
        \<lparr>statusEmoji = [0x274C], statusColor = ''RED'',
         nextSteps = 0x1F50D # ascii '' Check the error details and retry if needed.''\<rparr>
      else if toLowerCase status \<in> {''in progress'', ''running''} then
        \<lparr>statusEmoji = [0x1F504], statusColor = ''BLUE'',
         nextSteps = 0x23F0 #
           ascii '' Deployment is still running. Check again in a few minutes.''\<rparr>
      else if toLowerCase status \<in> {''not started'', ''queued''} then
        \<lparr>statusEmoji = [0x23F3], statusColor = ''YELLOW'',
         nextSteps = 0x1F4CB # ascii '' Job is queued and will start shortly.''\<rparr>
      else
        \<lparr>statusEmoji = [0x2754], statusColor = ''GRAY'',
         nextSteps = 0x1F50D # ascii '' Unknown status. Check Copado org for details.''\<rparr>)
   \<and> (toLowerCase status = toLowerCase status' \<longrightarrow> statusSwitch status = statusSwitch status')
   \<and> (anyCase status ''Success'' \<longrightarrow>
         statusSwitch status =
           \<lparr>statusEmoji = [0x2705], statusColor = ''GREEN'',
            nextSteps = 0x1F389 #
              ascii '' Deployment completed successfully! Check your destination org.''\<rparr>)
   \<and> statusSwitch ''bogus'' =
         \<lparr>statusEmoji = [0x2754], statusColor = ''GRAY'',
          nextSteps = 0x1F50D # ascii '' Unknown status. Check Copado org for details.''\<rparr>
   \<and> distinct (map nextSteps
         [statusSwitch ''success'', statusSwitch ''error'', statusSwitch ''running'',
          statusSwitch ''queued'', statusSwitch ''bogus''])"
proof -
  have 1: "statusSwitch status =
     (if toLowerCase status \<in> {''completed'', ''success''} then
        \<lparr>statusEmoji = [0x2705], statusColor = ''GREEN'',
         nextSteps = 0x1F389 #
           ascii '' Deployment completed successfully! Check your destination org.''\<rparr>
      else if toLowerCase status \<in> {''failed'', ''error''} then
        \<lparr>statusEmoji = [0x274C], statusColor = ''RED'',
         nextSteps = 0x1F50D # ascii '' Check the error details and retry if needed.''\<rparr>
      else if toLowerCase status \<in> {''in progress'', ''running''} then
        \<lparr>statusEmoji = [0x1F504], statusColor = ''BLUE'',
         nextSteps = 0x23F0 #
           ascii '' Deployment is still running. Check again in a few minutes.''\<rparr>
      else if toLowerCase status \<in> {''not started'', ''queued''} then
        \<lparr>statusEmoji = [0x23F3], statusColor = ''YELLOW'',
         nextSteps = 0x1F4CB # ascii '' Job is queued and will start shortly.''\<rparr>
      else
        \<lparr>statusEmoji = [0x2754], statusColor = ''GRAY'',
         nextSteps = 0x1F50D # ascii '' Unknown status. Check Copado org for details.''\<rparr>)"
    for status
    by (simp add: statusSwitch_def completedView_def failedView_def runningView_def
          queuedView_def unknownView_def)
  have low: "toLowerCase ''Success'' = ''success''" "toLowerCase ''bogus'' = ''bogus''"
    "toLowerCase ''success'' = ''success''" "toLowerCase ''error'' = ''error''"
    "toLowerCase ''running'' = ''running''" "toLowerCase ''queued'' = ''queued''"
    by (simp_all add: eval_simps)
  have 2: "statusSwitch status = statusSwitch status'" if "toLowerCase status = toLowerCase status'"
    using that by (simp add: statusSwitch_def)
  have 3: "statusSwitch status =
           \<lparr>statusEmoji = [0x2705], statusColor = ''GREEN'',
            nextSteps = 0x1F389 #
              ascii '' Deployment completed successfully! Check your destination org.''\<rparr>"
    if "anyCase status ''Success''"
    using anyCase_toLowerCase[OF that] low by (simp add: 1)
  have 4: "statusSwitch ''bogus'' =
         \<lparr>statusEmoji = [0x2754], statusColor = ''GRAY'',
          nextSteps = 0x1F50D # ascii '' Unknown status. Check Copado org for details.''\<rparr>"
    by (simp add: 1 low)
  have 5: "distinct (map nextSteps
         [statusSwitch ''success'', statusSwitch ''error'', statusSwitch ''running'',
          statusSwitch ''queued'', statusSwitch ''bogus''])"
    by (simp add: 1 low ascii_def)
  from 1 2 3 4 5 show ?thesis by blast
qed

theorem status_classification_witness:
  "anyCase ''sUCCess'' ''Success'' \<and> toLowerCase ''sUCCess'' = toLowerCase ''SUCCESS''
   \<and> statusSwitch ''sUCCess'' =
       \<lparr>statusEmoji = [0x2705], statusColor = ''GREEN'',
        nextSteps = 0x1F389 #
          ascii '' Deployment completed successfully! Check your destination org.''\<rparr>
   \<and> statusSwitch ''sUCCess'' = statusSwitch ''SUCCESS''"
proof -
  have a: "anyCase ''sUCCess'' ''Success''"
    by (simp add: anyCase_def eval_simps)
  have b: "toLowerCase ''sUCCess'' = toLowerCase ''SUCCESS''"
    by (simp add: eval_simps)
  from status_classification[of "''sUCCess''" "''SUCCESS''"] a b show ?thesis by blast
qed

text \<open>
  C4.  The description \<open>I modified the AccountController apex class\<close> gives one change:
  action \<open>Add\<close>, name \<open>AccountController\<close>, type \<open>ApexClass\<close>, module
  \<open>force-app/main/default\<close>.
\<close>

theorem account_controller_example:
  "parseChangesToCopadoFormat ''I modified the AccountController apex class'' =
     Some [\<lparr>ch_a = ''Add'', ch_n = ''AccountController'', ch_t = TypeName ''ApexClass'',
             ch_m = ''force-app/main/default''\<rparr>]"
  by (simp add: eval_simps)

text \<open>
  C5.  For every description the parser returns, and what it returns is a list that is
  not empty; the model has no error to return, as no statement of the parser can throw on
  a string.  When neither the pass over the patterns nor the fallback pass accepts a
  component, the result is the one placeholder: the default action, \<open>UnknownComponent\<close>,
  \<open>ApexClass\<close> and the default module.  The description \<open>no changes here\<close> gives this
  placeholder, with the action \<open>Add\<close>.
\<close>

theorem parser_never_fails:
  "(\<exists>changes. parseChangesToCopadoFormat d = Some changes \<and> changes \<noteq> [])
   \<and> (patternPass d = Some [] \<and> fallbackPass d [] = Some [] \<longrightarrow>
        parseChangesToCopadoFormat d =
          Some [\<lparr>ch_a = defaultAction d, ch_n = ''UnknownComponent'',
                  ch_t = TypeName ''ApexClass'', ch_m = ''force-app/main/default''\<rparr>])
   \<and> parseChangesToCopadoFormat ''no changes here'' =
        Some [\<lparr>ch_a = ''Add'', ch_n = ''UnknownComponent'',
                ch_t = TypeName ''ApexClass'', ch_m = ''force-app/main/default''\<rparr>]"
proof (intro conjI impI)
  from parse_total obtain changes where c: "parseChangesToCopadoFormat d = Some changes" by blast
  with parse_nonempty show "\<exists>changes. parseChangesToCopadoFormat d = Some changes \<and> changes \<noteq> []"
    by blast
next
  assume "patternPass d = Some [] \<and> fallbackPass d [] = Some []"
  then show "parseChangesToCopadoFormat d =
          Some [\<lparr>ch_a = defaultAction d, ch_n = ''UnknownComponent'',
                  ch_t = TypeName ''ApexClass'', ch_m = ''force-app/main/default''\<rparr>]"
    by (simp add: parseChangesToCopadoFormat_def unknownComponent_def defaultModule_def)
next
  show "parseChangesToCopadoFormat ''no changes here'' =
        Some [\<lparr>ch_a = ''Add'', ch_n = ''UnknownComponent'',
                ch_t = TypeName ''ApexClass'', ch_m = ''force-app/main/default''\<rparr>]"
    by (simp add: eval_simps)
qed

theorem parser_never_fails_witness:
  "patternPass ''the user made some changes'' = Some []
   \<and> fallbackPass ''the user made some changes'' [] = Some []
   \<and> parseChangesToCopadoFormat ''the user made some changes'' =
        Some [\<lparr>ch_a = ''Add'', ch_n = ''UnknownComponent'',
                ch_t = TypeName ''ApexClass'', ch_m = ''force-app/main/default''\<rparr>]"
proof -
  have p: "patternPass ''the user made some changes'' = Some []"
    by (simp add: eval_simps)
  have f: "fallbackPass ''the user made some changes'' [] = Some []"
    by (simp add: eval_simps)
  have a: "defaultAction ''the user made some changes'' = ''Add''"
    by (simp add: eval_simps)
  from parser_never_fails[of "''the user made some changes''"] p f a show ?thesis by simp
qed

text \<open>
  C9.  The default action is chosen by containment.  The keywords are tried in the order
  of the table: added, created, new, modified, changed, updated, edited, deleted, removed.
  A keyword counts when the lower-cased description contains it anywhere, whatever stands
  before and after it.  The first keyword that counts gives the action, without one the
  action is \<open>Add\<close>, and every change of the result has this action.  So a description
  where \<open>removed\<close> occurs only inside a component name gives \<open>Delete\<close>.
\<close>

theorem default_action_by_containment:
  "map fst actionMap =
     [''added'', ''created'', ''new'', ''modified'', ''changed'', ''updated'', ''edited'',
      ''deleted'', ''removed'']
   \<and> (includes_str (toLowerCase d) k \<longleftrightarrow> (\<exists>pre post. toLowerCase d = pre @ k @ post))
   \<and> (j < length actionMap \<and> includes_str (toLowerCase d) (fst (actionMap ! j))
        \<and> (\<forall>i<j. \<not> includes_str (toLowerCase d) (fst (actionMap ! i)))
        \<longrightarrow> defaultAction d = snd (actionMap ! j))
   \<and> ((\<forall>i<length actionMap. \<not> includes_str (toLowerCase d) (fst (actionMap ! i)))
        \<longrightarrow> defaultAction d = ''Add'')
   \<and> (\<exists>changes. parseChangesToCopadoFormat d = Some changes
          \<and> (\<forall>c \<in> set changes. ch_a c = defaultAction d))
   \<and> parseChangesToCopadoFormat ''AccountRemovedHandler class'' =
        Some [\<lparr>ch_a = ''Delete'', ch_n = ''AccountRemovedHandler'',
                ch_t = TypeName ''ApexClass'', ch_m = ''force-app/main/default''\<rparr>]"
proof (intro conjI impI)
  show "map fst actionMap =
     [''added'', ''created'', ''new'', ''modified'', ''changed'', ''updated'', ''edited'',
      ''deleted'', ''removed'']"
    by (simp add: actionMap_def)
next
  show "includes_str (toLowerCase d) k \<longleftrightarrow> (\<exists>pre post. toLowerCase d = pre @ k @ post)"
    by (rule includes_str_iff)
next
  assume "j < length actionMap \<and> includes_str (toLowerCase d) (fst (actionMap ! j))
        \<and> (\<forall>i<j. \<not> includes_str (toLowerCase d) (fst (actionMap ! i)))"
  then show "defaultAction d = snd (actionMap ! j)"
    unfolding defaultAction_def using firstIncluded_at by blast
next
  assume "\<forall>i<length actionMap. \<not> includes_str (toLowerCase d) (fst (actionMap ! i))"
  then show "defaultAction d = ''Add''"
    unfolding defaultAction_def by (rule firstIncluded_none)
next
  from parse_total obtain changes where c: "parseChangesToCopadoFormat d = Some changes" by blast
  then have "\<forall>c \<in> set changes. ch_a c = defaultAction d" using parse_actions by blast
  with c show "\<exists>changes. parseChangesToCopadoFormat d = Some changes
          \<and> (\<forall>c \<in> set changes. ch_a c = defaultAction d)" by blast
next
  show "parseChangesToCopadoFormat ''AccountRemovedHandler class'' =
        Some [\<lparr>ch_a = ''Delete'', ch_n = ''AccountRemovedHandler'',
                ch_t = TypeName ''ApexClass'', ch_m = ''force-app/main/default''\<rparr>]"
    by (simp add: eval_simps)
qed

theorem default_action_by_containment_witness:
  "(8::nat) < length actionMap
   \<and> includes_str (toLowerCase ''XremovedY trigger'') (fst (actionMap ! 8))
   \<and> list_all (\<lambda>k. \<not> includes_str (toLowerCase ''XremovedY trigger'') k)
         (take 8 (map fst actionMap))
   \<and> defaultAction ''XremovedY trigger'' = ''Delete''
   \<and> parseChangesToCopadoFormat ''XremovedY trigger'' =
        Some [\<lparr>ch_a = ''Delete'', ch_n = ''XremovedY'',
                ch_t = TypeName ''ApexTrigger'', ch_m = ''force-app/main/default''\<rparr>]"
proof -
  have l: "(8::nat) < length actionMap" by (simp add: actionMap_def)
  have i: "includes_str (toLowerCase ''XremovedY trigger'') (fst (actionMap ! 8))"
    by (simp add: eval_simps)
  have n': "list_all (\<lambda>k. \<not> includes_str (toLowerCase ''XremovedY trigger'') k)
         (take 8 (map fst actionMap))"
    by (simp add: eval_simps)
  have n: "\<forall>i<8. \<not> includes_str (toLowerCase ''XremovedY trigger'') (fst (actionMap ! i))"
    using n' l by (auto simp: list_all_length)
  have s: "snd (actionMap ! 8) = ''Delete''" by (simp add: actionMap_def)
  have p: "parseChangesToCopadoFormat ''XremovedY trigger'' =
        Some [\<lparr>ch_a = ''Delete'', ch_n = ''XremovedY'',
                ch_t = TypeName ''ApexTrigger'', ch_m = ''force-app/main/default''\<rparr>]"
    by (simp add: eval_simps)
  from default_action_by_containment[of "''XremovedY trigger''" _ 8] l i n s
  have "defaultAction ''XremovedY trigger'' = ''Delete''" by simp
  with l i n' p show ?thesis by blast
qed

text \<open>
  C10.  When \<open>commit_changes\<close> is given an API key, it sends one request, to the commit
  webhook, and the message in the payload of this request is the given commit message;
  when the commit message is absent or empty, the message is \<open>Commit changes: \<close> followed
  by the description as given.  The payload also has the user story and the parsed
  changes.
\<close>

theorem commit_message_default:
  "\<not> falsy (commit_apiKey inp) \<Longrightarrow>
   \<exists>rq changes.
     commit_prepare inp env = Some (Inr rq)
     \<and> requests (execute (Inr rq) rest) = [rq]
     \<and> url rq = ''https://app-api.copado.com/json/v1/webhook/mcwebhook/commit''
     \<and> action rq = ''Commit''
     \<and> key rq = the (commit_apiKey inp)
     \<and> parseChangesToCopadoFormat (changesDescription inp) = Some changes
     \<and> payload rq =
         CommitPayload (userStoryId inp) changes
           (if commitMessage inp = None \<or> commitMessage inp = Some []
            then ''Commit changes: '' @ changesDescription inp
            else the (commitMessage inp))"
proof -
  assume k: "\<not> falsy (commit_apiKey inp)"
  obtain changes where c: "parseChangesToCopadoFormat (changesDescription inp) = Some changes"
    using parse_total by blast
  have m: "falsy (commitMessage inp) \<longleftrightarrow> commitMessage inp = None \<or> commitMessage inp = Some []"
    by (simp add: falsy_def split: option.splits)
  define msg where "msg = (if commitMessage inp = None \<or> commitMessage inp = Some []
            then ''Commit changes: '' @ changesDescription inp
            else the (commitMessage inp))"
  define rq where "rq = mkRequest ''commit'' ''Commit'' (the (commit_apiKey inp))
                          (CommitPayload (userStoryId inp) changes msg)"
  have 1: "commit_prepare inp env = Some (Inr rq)"
    using k c m by (simp add: commit_prepare_def Let_def rq_def msg_def)
  have 2: "requests (execute (Inr rq) rest) = [rq]" by (simp add: execute_def)
  have 3: "url rq = ''https://app-api.copado.com/json/v1/webhook/mcwebhook/commit''"
    and 4: "action rq = ''Commit''" and 5: "key rq = the (commit_apiKey inp)"
    and 6: "payload rq = CommitPayload (userStoryId inp) changes msg"
    by (simp_all add: rq_def mkRequest_def)
  from 1 2 3 4 5 c 6 show ?thesis unfolding msg_def by (intro exI conjI)
qed

theorem commit_message_default_witness:
  "\<not> falsy (Some ''k1'')
   \<and> commit_prepare \<lparr>userStoryId = ''a1'', changesDescription = ''Foo class'',
                       commitMessage = Some [], commit_apiKey = Some ''k1''\<rparr> None =
       Some (Inr \<lparr>url = ''https://app-api.copado.com/json/v1/webhook/mcwebhook/commit'',
                  webhookKeyHeader = ''k1'', action = ''Commit'', key = ''k1'',
                  payload = CommitPayload ''a1''
                    [\<lparr>ch_a = ''Add'', ch_n = ''Foo'', ch_t = TypeName ''ApexClass'',
                       ch_m = ''force-app/main/default''\<rparr>]
                    ''Commit changes: Foo class''\<rparr>)
   \<and> commit_prepare \<lparr>userStoryId = ''a1'', changesDescription = ''Foo class'',
                       commitMessage = Some ''fix it'', commit_apiKey = Some ''k1''\<rparr> None =
       Some (Inr \<lparr>url = ''https://app-api.copado.com/json/v1/webhook/mcwebhook/commit'',
                  webhookKeyHeader = ''k1'', action = ''Commit'', key = ''k1'',
                  payload = CommitPayload ''a1''
                    [\<lparr>ch_a = ''Add'', ch_n = ''Foo'', ch_t = TypeName ''ApexClass'',
                       ch_m = ''force-app/main/default''\<rparr>]
                    ''fix it''\<rparr>)"
proof -
  let ?inp = "\<lparr>userStoryId = ''a1'', changesDescription = ''Foo class'',
                       commitMessage = Some [], commit_apiKey = Some ''k1''\<rparr>"
  let ?inp2 = "\<lparr>userStoryId = ''a1'', changesDescription = ''Foo class'',
                       commitMessage = Some ''fix it'', commit_apiKey = Some ''k1''\<rparr>"
  have f: "\<not> falsy (Some ''k1'')" by (simp add: falsy_def)
  have p: "parseChangesToCopadoFormat ''Foo class'' =
     Some [\<lparr>ch_a = ''Add'', ch_n = ''Foo'', ch_t = TypeName ''ApexClass'',
             ch_m = ''force-app/main/default''\<rparr>]"
    by (simp add: eval_simps)
  from commit_message_default[of ?inp None "\<lambda>rq. False"] f
  obtain rq changes where r: "commit_prepare ?inp None = Some (Inr rq)"
    and u: "url rq = ''https://app-api.copado.com/json/v1/webhook/mcwebhook/commit''"
    and a: "action rq = ''Commit''" and k: "key rq = ''k1''"
    and c: "parseChangesToCopadoFormat ''Foo class'' = Some changes"
    and m: "payload rq = CommitPayload ''a1'' changes ''Commit changes: Foo class''"
    by auto
  have h: "webhookKeyHeader rq = ''k1''" using r by (auto simp: commit_prepare_def falsy_def p mkRequest_def)
  from c p have "changes = [\<lparr>ch_a = ''Add'', ch_n = ''Foo'', ch_t = TypeName ''ApexClass'',
             ch_m = ''force-app/main/default''\<rparr>]" by simp
  with u a k m h have "rq = \<lparr>url = ''https://app-api.copado.com/json/v1/webhook/mcwebhook/commit'',
                  webhookKeyHeader = ''k1'', action = ''Commit'', key = ''k1'',
                  payload = CommitPayload ''a1''
                    [\<lparr>ch_a = ''Add'', ch_n = ''Foo'', ch_t = TypeName ''ApexClass'',
                       ch_m = ''force-app/main/default''\<rparr>]
                    ''Commit changes: Foo class''\<rparr>" by (cases rq) simp
  with r have 1: "commit_prepare ?inp None =
       Some (Inr \<lparr>url = ''https://app-api.copado.com/json/v1/webhook/mcwebhook/commit'',
                  webhookKeyHeader = ''k1'', action = ''Commit'', key = ''k1'',
                  payload = CommitPayload ''a1''
                    [\<lparr>ch_a = ''Add'', ch_n = ''Foo'', ch_t = TypeName ''ApexClass'',
                       ch_m = ''force-app/main/default''\<rparr>]
                    ''Commit changes: Foo class''\<rparr>)" by simp
  have 2: "commit_prepare ?inp2 None =
       Some (Inr \<lparr>url = ''https://app-api.copado.com/json/v1/webhook/mcwebhook/commit'',
                  webhookKeyHeader = ''k1'', action = ''Commit'', key = ''k1'',
                  payload = CommitPayload ''a1''
                    [\<lparr>ch_a = ''Add'', ch_n = ''Foo'', ch_t = TypeName ''ApexClass'',
                       ch_m = ''force-app/main/default''\<rparr>]
                    ''fix it''\<rparr>)"
    by (simp add: commit_prepare_def falsy_def p mkRequest_def)
  from f 1 2 show ?thesis by (intro conjI)
qed

text \<open>
  C1.  What the four tools do about the token.  \<open>check_job_status\<close> takes the given
  key, and the configured one when none is given.  \<open>commit_changes\<close> and
  \<open>promote_user_story\<close> never read the configured key: without a given key they fail,
  whatever is configured.  \<open>deploy_promotion\<close> never reads the given key: it sends the
  configured one, and fails without it.
\<close>

theorem token_resolution_by_tool:
  "check_prepare \<lparr>jobExecutionId = ''j1'', check_apiKey = None\<rparr> (Some ''ENVKEY'') =
     Inr (mkRequest ''checkStatusAction'' ''CheckStatusAction'' ''ENVKEY'' (StatusPayload ''j1''))
   \<and> commit_prepare \<lparr>userStoryId = ''a1'', changesDescription = ''Foo class'',
                       commitMessage = None, commit_apiKey = None\<rparr> (Some ''ENVKEY'') =
       Some (Inl apiKeyRequired)
   \<and> promote_prepare \<lparr>userStoryIds = ''a1'', executeDeployment = False,
                        deploymentDryRun = False, promote_apiKey = None\<rparr> (Some ''ENVKEY'') =
       Inl apiKeyRequired
   \<and> deploy_prepare \<lparr>promotionId = ''p1'', deploy_apiKey = Some ''GIVEN''\<rparr> (Some ''ENVKEY'') =
       Inr (mkRequest ''promotiondeployment'' ''PromotionDeployment'' ''ENVKEY''
              (DeploymentPayload ''p1''))
   \<and> deploy_prepare \<lparr>promotionId = ''p1'', deploy_apiKey = Some ''GIVEN''\<rparr> None =
       Inl apiKeyRequired"
  by (simp add: check_prepare_def commit_prepare_def promote_prepare_def deploy_prepare_def
        orElse_def falsy_def)

text \<open>
  C6.  Read word by word, the reference algorithm of the specification replaces each
  occurrence of the word that has a white-space character on either side.  The parser
  does not: its pattern takes the white space with the word, so of two occurrences with
  one run of white space between them only the first is replaced.
\<close>

theorem identifier_parser_literal_counterexample:
  "parseUserStoryIds ''a and and b'' = [''a'', ''and b'']
   \<and> literalParse ''a and and b'' = [''a'', ''b'']
   \<and> parseUserStoryIds ''a and and b'' \<noteq> literalParse ''a and and b''"
proof -
  have 1: "parseUserStoryIds ''a and and b'' = [''a'', ''and b'']"
    by (simp add: eval_simps)
  have 2: "literalParse ''a and and b'' = [''a'', ''b'']"
    by (simp add: literalParse_def isBracketOrQuote_def eval_simps)
  from 1 2 show ?thesis by simp
qed

text \<open>
  C6, as the parser has it.  The parser equals this algorithm: delete every bracket and
  quote character; then scan from left to right and, wherever a run of one or more
  white-space characters is followed by the word in any letter case and by another run
  of one or more white-space characters, replace the two runs and the word by one comma
  and go on after them; split at the commas; trim each piece; drop the empty pieces.
  Every element of the result is trimmed and not empty, the order is that of the input
  and equal elements stay.
\<close>

theorem identifier_parser_reference:
  "parseUserStoryIds s = referenceParse s
   \<and> (\<forall>id \<in> set (parseUserStoryIds s). id \<noteq> [] \<and> trim id = id)
   \<and> parseUserStoryIds ''a1u1, a1u2 and a1u3'' = [''a1u1'', ''a1u2'', ''a1u3'']
   \<and> parseUserStoryIds
        (CHR ''['' # CHR 0x27 # ''a1u1'' @ CHR 0x27 # '', '' @ CHR 0x27 # ''a1u2'' @ [CHR 0x27, CHR '']''])
      = [''a1u1'', ''a1u2'']
   \<and> parseUserStoryIds ''b, a, b'' = [''b'', ''a'', ''b'']"
proof (intro conjI ballI)
  show "parseUserStoryIds s = referenceParse s" by (rule parse_reference)
next
  fix id assume "id \<in> set (parseUserStoryIds s)"
  then have "id \<in> set (referenceParse s)" by (simp add: parse_reference)
  from referenceParse_elem(1,2)[OF this] show "id \<noteq> []" and "trim id = id" .
next
  show "parseUserStoryIds ''a1u1, a1u2 and a1u3'' = [''a1u1'', ''a1u2'', ''a1u3'']"
    by (simp add: eval_simps)
next
  show "parseUserStoryIds
        (CHR ''['' # CHR 0x27 # ''a1u1'' @ CHR 0x27 # '', '' @ CHR 0x27 # ''a1u2'' @ [CHR 0x27, CHR '']''])
      = [''a1u1'', ''a1u2'']"
    by (simp add: eval_simps)
next
  show "parseUserStoryIds ''b, a, b'' = [''b'', ''a'', ''b'']"
    by (simp add: eval_simps)
qed

theorem identifier_parser_reference_witness:
  "parseUserStoryIds ''x1 AND  x2'' = [''x1'', ''x2'']
   \<and> referenceParse ''x1 AND  x2'' = [''x1'', ''x2'']
   \<and> trim ''x1'' = ''x1''"
proof -
  have p: "parseUserStoryIds ''x1 AND  x2'' = [''x1'', ''x2'']"
    by (simp add: eval_simps)
  from identifier_parser_reference[of "''x1 AND  x2''"] p show ?thesis by simp
qed

text \<open>
  C7.  Joining the result of the parser with commas and parsing the joined text again
  gives the same result.
\<close>

theorem identifier_parser_rejoin:
  "parseUserStoryIds (join_str '','' (parseUserStoryIds x)) = parseUserStoryIds x"
  by (simp add: parse_reference referenceParse_rejoin)

theorem identifier_parser_rejoin_witness:
  "parseUserStoryIds '' a1 and b2,, [c3] '' = [''a1'', ''b2'', ''c3'']
   \<and> join_str '','' (parseUserStoryIds '' a1 and b2,, [c3] '') = ''a1,b2,c3''
   \<and> parseUserStoryIds ''a1,b2,c3'' = [''a1'', ''b2'', ''c3'']"
proof -
  have p: "parseUserStoryIds '' a1 and b2,, [c3] '' = [''a1'', ''b2'', ''c3'']"
    by (simp add: eval_simps)
  from identifier_parser_rejoin[of "'' a1 and b2,, [c3] ''"] p show ?thesis by simp
qed

text \<open>
  C2.  The first type does not win.  In \<open>Foo class, Foo trigger\<close> the first pattern
  matches the name twice, first as a class and then as a trigger; the parser gives one
  change for the name, with the type of the trigger.
\<close>

theorem first_writer_counterexample:
  "acceptedWrites ''Foo class, Foo trigger'' =
     Some [(''Foo'', TypeName ''ApexClass''), (''Foo'', TypeName ''ApexTrigger'')]
   \<and> parseChangesToCopadoFormat ''Foo class, Foo trigger'' =
       Some [\<lparr>ch_a = ''Add'', ch_n = ''Foo'', ch_t = TypeName ''ApexTrigger'',
               ch_m = ''force-app/main/default''\<rparr>]"
proof -
  have 1: "acceptedWrites ''Foo class, Foo trigger'' =
     Some [(''Foo'', TypeName ''ApexClass''), (''Foo'', TypeName ''ApexTrigger'')]"
    by (simp add: acceptedWrites_def List.map_filter_simps eval_simps)
  have 2: "parseChangesToCopadoFormat ''Foo class, Foo trigger'' =
       Some [\<lparr>ch_a = ''Add'', ch_n = ''Foo'', ch_t = TypeName ''ApexTrigger'',
               ch_m = ''force-app/main/default''\<rparr>]"
    by (simp add: eval_simps)
  from 1 2 show ?thesis by simp
qed

text \<open>
  C2, as the parser has it.  Take all the calls of \<open>foundComponents.set\<close> of one run, in
  their order: the matches of the patterns, pattern after pattern in the order of the list
  and the matches of one pattern from left to right, and, when no match of a pattern was
  accepted, the capitalised words of the fallback from left to right.  When there is no
  call, the result is the placeholder alone.  Otherwise the result has exactly one change
  for each name written and no other change, and the type of the change of a name is the
  one of the last call for the name: a later match for a name overwrites the type that an
  earlier one gave it.
\<close>

theorem last_writer_wins:
  "\<exists>changes ws.
     parseChangesToCopadoFormat d = Some changes \<and> allWrites d = Some ws
     \<and> distinct (map ch_n changes)
     \<and> (ws = [] \<longrightarrow> changes = [unknownComponent (defaultAction d)])
     \<and> (ws \<noteq> [] \<longrightarrow> (\<forall>c \<in> set changes. lastWrite ws (ch_n c) = Some (ch_t c)))
     \<and> (\<forall>name ty. (name, ty) \<in> set ws \<longrightarrow> lastWrite ws name \<noteq> None)
     \<and> (\<forall>name ty. lastWrite ws name = Some ty \<longrightarrow>
           (\<exists>!c. c \<in> set changes \<and> ch_n c = name)
           \<and> (\<forall>c \<in> set changes. ch_n c = name \<longrightarrow> ch_t c = ty))"
proof -
  obtain ws where ws: "allWrites d = Some ws" using allWrites_total by blast
  define f where "f = setAll [] ws"
  define changes where "changes = (if ws = [] then [unknownComponent (defaultAction d)]
                 else map (toChange (defaultAction d)) f)"
  from parse_all_writes[OF ws] have c: "parseChangesToCopadoFormat d = Some changes"
    by (simp add: changes_def f_def)
  have dk: "distinct (map fst f)" unfolding f_def by (rule setAll_distinct) simp
  have mo: "map_of f = lastWrite ws" by (simp add: f_def setAll_map_of lastWrite_def fun_eq_iff)
  have 1: "distinct (map ch_n changes)" using c by (rule parse_distinct)
  have 2: "ws = [] \<longrightarrow> changes = [unknownComponent (defaultAction d)]"
    by (simp add: changes_def)
  have 3: "ws \<noteq> [] \<longrightarrow> (\<forall>c \<in> set changes. lastWrite ws (ch_n c) = Some (ch_t c))"
  proof (intro impI ballI)
    fix c assume "ws \<noteq> []" "c \<in> set changes"
    then have "c \<in> set (map (toChange (defaultAction d)) f)" by (simp add: changes_def)
    from changes_written[OF dk this] mo show "lastWrite ws (ch_n c) = Some (ch_t c)" by simp
  qed
  have 4: "\<forall>name ty. (name, ty) \<in> set ws \<longrightarrow> lastWrite ws name \<noteq> None"
  proof (intro allI impI)
    fix name ty assume "(name, ty) \<in> set ws"
    then have "name \<in> fst ` set (rev ws)" by force
    then show "lastWrite ws name \<noteq> None" unfolding lastWrite_def by (simp add: map_of_eq_None_iff)
  qed
  have 5: "\<forall>name ty. lastWrite ws name = Some ty \<longrightarrow>
           (\<exists>!c. c \<in> set changes \<and> ch_n c = name)
           \<and> (\<forall>c \<in> set changes. ch_n c = name \<longrightarrow> ch_t c = ty)"
  proof (intro allI impI)
    fix name ty assume l: "lastWrite ws name = Some ty"
    then have "ws \<noteq> []" by (auto simp: lastWrite_def)
    then have ch: "changes = map (toChange (defaultAction d)) f" by (simp add: changes_def)
    from l mo have "map_of f name = Some ty" by simp
    from changes_last_write[OF dk this, of "defaultAction d"] ch
    show "(\<exists>!c. c \<in> set changes \<and> ch_n c = name)
           \<and> (\<forall>c \<in> set changes. ch_n c = name \<longrightarrow> ch_t c = ty)" by simp
  qed
  from c ws 1 2 3 4 5 show ?thesis by (intro exI conjI)
qed

theorem last_writer_wins_witness:
  "allWrites ''Foo trigger; Foo flow'' =
     Some [(''Foo'', TypeName ''ApexTrigger''), (''Foo'', TypeName ''Flow'')]
   \<and> lastWrite [(''Foo'', TypeName ''ApexTrigger''), (''Foo'', TypeName ''Flow'')] ''Foo''
       = Some (TypeName ''Flow'')
   \<and> parseChangesToCopadoFormat ''Foo trigger; Foo flow'' =
       Some [\<lparr>ch_a = ''Add'', ch_n = ''Foo'', ch_t = TypeName ''Flow'',
               ch_m = ''force-app/main/default''\<rparr>]
   \<and> acceptedWrites ''flow:Zed ______________________ report:Zed'' = Some []
   \<and> allWrites ''flow:Zed ______________________ report:Zed'' =
       Some [(''Zed'', TypeName ''Flow''), (''Zed'', TypeName ''Report'')]
   \<and> lastWrite [(''Zed'', TypeName ''Flow''), (''Zed'', TypeName ''Report'')] ''Zed''
       = Some (TypeName ''Report'')
   \<and> parseChangesToCopadoFormat ''flow:Zed ______________________ report:Zed'' =
       Some [\<lparr>ch_a = ''Add'', ch_n = ''Zed'', ch_t = TypeName ''Report'',
               ch_m = ''force-app/main/default''\<rparr>]"
proof -
  have a: "allWrites ''Foo trigger; Foo flow'' =
     Some [(''Foo'', TypeName ''ApexTrigger''), (''Foo'', TypeName ''Flow'')]"
    by (simp add: eval_writes eval_simps)
  have l: "lastWrite [(''Foo'', TypeName ''ApexTrigger''), (''Foo'', TypeName ''Flow'')] ''Foo''
       = Some (TypeName ''Flow'')"
    by (simp add: lastWrite_def)
  have p: "parseChangesToCopadoFormat ''Foo trigger; Foo flow'' =
       Some [\<lparr>ch_a = ''Add'', ch_n = ''Foo'', ch_t = TypeName ''Flow'',
               ch_m = ''force-app/main/default''\<rparr>]"
    by (simp add: eval_simps)
  have a0: "acceptedWrites ''flow:Zed ______________________ report:Zed'' = Some []"
    by (simp add: eval_writes eval_simps)
  have a': "allWrites ''flow:Zed ______________________ report:Zed'' =
       Some [(''Zed'', TypeName ''Flow''), (''Zed'', TypeName ''Report'')]"
    by (simp add: eval_writes eval_simps)
  have l': "lastWrite [(''Zed'', TypeName ''Flow''), (''Zed'', TypeName ''Report'')] ''Zed''
       = Some (TypeName ''Report'')"
    by (simp add: lastWrite_def)
  from last_writer_wins[of "''flow:Zed ______________________ report:Zed''"]
  obtain changes ws where
    c: "parseChangesToCopadoFormat ''flow:Zed ______________________ report:Zed'' = Some changes"
    and w: "allWrites ''flow:Zed ______________________ report:Zed'' = Some ws"
    and d: "distinct (map ch_n changes)"
    and e: "ws \<noteq> [] \<longrightarrow> (\<forall>c \<in> set changes. lastWrite ws (ch_n c) = Some (ch_t c))"
    and u: "\<forall>name ty. lastWrite ws name = Some ty \<longrightarrow>
           (\<exists>!c. c \<in> set changes \<and> ch_n c = name)
           \<and> (\<forall>c \<in> set changes. ch_n c = name \<longrightarrow> ch_t c = ty)"
    by blast
  from w a' have ws: "ws = [(''Zed'', TypeName ''Flow''), (''Zed'', TypeName ''Report'')]"
    by simp
  from u l' ws obtain c0 where c0: "c0 \<in> set changes" "ch_n c0 = ''Zed''" "ch_t c0 = TypeName ''Report''"
    by blast
  have p': "parseChangesToCopadoFormat ''flow:Zed ______________________ report:Zed'' =
       Some [\<lparr>ch_a = ''Add'', ch_n = ''Zed'', ch_t = TypeName ''Report'',
               ch_m = ''force-app/main/default''\<rparr>]"
    by (simp add: eval_simps)
  from a l p a0 a' l' p' show ?thesis by (intro conjI)
qed

text \<open>
  C3.  The text \<open>Name class\<close> in a description does not always give a change for the
  name.  In \<open>Ab classes\<close> the word after the name goes on, the first pattern does not
  match, and the parser gives the placeholder.  In \<open>Field Flow class\<close> the first pattern
  matches \<open>Field Flow\<close>, with \<open>Flow\<close> as the type, and goes on after it, so that
  \<open>Flow\<close> is never a name.  In \<open>Foo class, Foo flow\<close> the change for \<open>Foo\<close> has the
  type of the second match.
\<close>

theorem name_class_counterexample:
  "validName (Some ''Ab'')
   \<and> ''Ab classes'' = ''Ab'' @ '' class'' @ ''es''
   \<and> parseChangesToCopadoFormat ''Ab classes'' =
       Some [\<lparr>ch_a = ''Add'', ch_n = ''UnknownComponent'', ch_t = TypeName ''ApexClass'',
               ch_m = ''force-app/main/default''\<rparr>]
   \<and> validName (Some ''Flow'')
   \<and> ''Field Flow class'' = ''Field '' @ ''Flow'' @ '' class''
   \<and> parseChangesToCopadoFormat ''Field Flow class'' =
       Some [\<lparr>ch_a = ''Add'', ch_n = ''Field'', ch_t = TypeName ''Flow'',
               ch_m = ''force-app/main/default''\<rparr>]
   \<and> validName (Some ''Foo'')
   \<and> ''Foo class, Foo flow'' = ''Foo'' @ '' class'' @ '', Foo flow''
   \<and> parseChangesToCopadoFormat ''Foo class, Foo flow'' =
       Some [\<lparr>ch_a = ''Add'', ch_n = ''Foo'', ch_t = TypeName ''Flow'',
               ch_m = ''force-app/main/default''\<rparr>]"
proof -
  have 1: "validName (Some ''Ab'')" by (simp add: validName_def eval_simps)
  have 2: "parseChangesToCopadoFormat ''Ab classes'' =
       Some [\<lparr>ch_a = ''Add'', ch_n = ''UnknownComponent'', ch_t = TypeName ''ApexClass'',
               ch_m = ''force-app/main/default''\<rparr>]"
    by (simp add: eval_simps)
  have 3: "validName (Some ''Flow'')" by (simp add: validName_def eval_simps)
  have 4: "parseChangesToCopadoFormat ''Field Flow class'' =
       Some [\<lparr>ch_a = ''Add'', ch_n = ''Field'', ch_t = TypeName ''Flow'',
               ch_m = ''force-app/main/default''\<rparr>]"
    by (simp add: eval_simps)
  have 5: "validName (Some ''Foo'')" by (simp add: validName_def eval_simps)
  have 6: "parseChangesToCopadoFormat ''Foo class, Foo flow'' =
       Some [\<lparr>ch_a = ''Add'', ch_n = ''Foo'', ch_t = TypeName ''Flow'',
               ch_m = ''force-app/main/default''\<rparr>]"
    by (simp add: eval_simps)
  from 1 2 3 4 5 6 show ?thesis by simp
qed

text \<open>
  C3, as the parser has it.  Let the name be a valid one that is not one of the nine type
  words of the patterns, in any letter case, and let \<open>Name class\<close> stand in the
  description as whole words: no letter, digit or underscore just before the name or just
  after \<open>class\<close>.  Then the first pattern matches the name with \<open>class\<close>, the parser
  writes the name with the type \<open>ApexClass\<close>, and the result has exactly one change for
  the name.  The type of this change is the one of the last write for the name; it is
  \<open>ApexClass\<close> when no write for the name has another type.
\<close>

theorem name_class_record:
  assumes "validName (Some name)" and "toLowerCase name \<notin> set typeWords"
    and "pre = [] \<or> \<not> isWordChar (last pre)"
    and "post = [] \<or> \<not> isWordChar (hd post)"
  shows "\<exists>changes ws ty.
           parseChangesToCopadoFormat (pre @ name @ '' class'' @ post) = Some changes
           \<and> acceptedWrites (pre @ name @ '' class'' @ post) = Some ws
           \<and> (name, TypeName ''ApexClass'') \<in> set ws
           \<and> lastWrite ws name = Some ty
           \<and> (\<exists>!c. c \<in> set changes \<and> ch_n c = name)
           \<and> (\<forall>c \<in> set changes. ch_n c = name \<longrightarrow> ch_t c = ty)
           \<and> ((\<forall>ty'. (name, ty') \<in> set ws \<longrightarrow> ty' = TypeName ''ApexClass'')
                 \<longrightarrow> ty = TypeName ''ApexClass'')"
proof -
  let ?d = "pre @ name @ '' class'' @ post"
  obtain ws where ws: "acceptedWrites ?d = Some ws" using acceptedWrites_total by blast
  from name_class_written[OF assms ws] have w: "(name, TypeName ''ApexClass'') \<in> set ws" .
  from lastWrite_written[OF w] obtain ty where ty: "lastWrite ws name = Some ty" by blast
  from parse_last_write[OF ws ty] obtain changes where
    c: "parseChangesToCopadoFormat ?d = Some changes"
    and u: "\<exists>!c. c \<in> set changes \<and> ch_n c = name"
    and t: "\<forall>c \<in> set changes. ch_n c = name \<longrightarrow> ch_t c = ty" by blast
  from lastWrite_mem[OF ty]
  have a: "(\<forall>ty'. (name, ty') \<in> set ws \<longrightarrow> ty' = TypeName ''ApexClass'')
             \<longrightarrow> ty = TypeName ''ApexClass''" by blast
  from c ws w ty u t a show ?thesis by (intro exI conjI)
qed

theorem name_class_record_witness:
  "validName (Some ''Foo'') \<and> toLowerCase ''Foo'' \<notin> set typeWords
   \<and> \<not> isWordChar (last ''fix: '') \<and> \<not> isWordChar (hd ''.'')
   \<and> acceptedWrites (''fix: '' @ ''Foo'' @ '' class'' @ ''.'') =
       Some [(''Foo'', TypeName ''ApexClass'')]
   \<and> lastWrite [(''Foo'', TypeName ''ApexClass'')] ''Foo'' = Some (TypeName ''ApexClass'')
   \<and> parseChangesToCopadoFormat (''fix: '' @ ''Foo'' @ '' class'' @ ''.'') =
       Some [\<lparr>ch_a = ''Add'', ch_n = ''Foo'', ch_t = TypeName ''ApexClass'',
               ch_m = ''force-app/main/default''\<rparr>]"
proof -
  have v: "validName (Some ''Foo'')" by (simp add: validName_def eval_simps)
  have nt: "toLowerCase ''Foo'' \<notin> set typeWords" by (simp add: typeWords_def eval_simps)
  have pre: "\<not> isWordChar (last ''fix: '')" by (simp add: eval_simps)
  have post: "\<not> isWordChar (hd ''.'')" by (simp add: eval_simps)
  have a: "acceptedWrites (''fix: '' @ ''Foo'' @ '' class'' @ ''.'') =
       Some [(''Foo'', TypeName ''ApexClass'')]"
    by (simp add: acceptedWrites_def List.map_filter_simps eval_simps)
  have p: "parseChangesToCopadoFormat (''fix: '' @ ''Foo'' @ '' class'' @ ''.'') =
       Some [\<lparr>ch_a = ''Add'', ch_n = ''Foo'', ch_t = TypeName ''ApexClass'',
               ch_m = ''force-app/main/default''\<rparr>]"
    by (simp add: eval_simps)
  from name_class_record[of "''Foo''" "''fix: ''" "''.''"] v nt pre post
  obtain changes ws ty where
    w: "acceptedWrites (''fix: '' @ ''Foo'' @ '' class'' @ ''.'') = Some ws"
    and l: "lastWrite ws ''Foo'' = Some ty"
    and y: "(\<forall>ty'. (''Foo'', ty') \<in> set ws \<longrightarrow> ty' = TypeName ''ApexClass'')
                 \<longrightarrow> ty = TypeName ''ApexClass''"
    by blast
  from w a have ws: "ws = [(''Foo'', TypeName ''ApexClass'')]" by simp
  with y have "ty = TypeName ''ApexClass''" by simp
  with l ws have lw: "lastWrite [(''Foo'', TypeName ''ApexClass'')] ''Foo'' = Some (TypeName ''ApexClass'')"
    by simp
  from v nt pre post a lw p show ?thesis by (intro conjI)
qed

end
